theory Spec2Isabelle
  imports Complex_Main "HOL-Library.AList"
begin

section \<open>Python values, strings and errors\<close>

text \<open>
  The parameter-mapping engine of \<^verbatim>\<open>holopy/inference/model.py\<close>: the functions
  \<^verbatim>\<open>read_map\<close>, \<^verbatim>\<open>edit_map_indices\<close> and the methods \<^verbatim>\<open>_convert_to_map\<close>,
  \<^verbatim>\<open>_check_for_ties\<close> and \<^verbatim>\<open>add_tie\<close> of class \<^verbatim>\<open>Model\<close>.

  Exceptions are values. Both failures that \<^verbatim>\<open>add_tie\<close> raises itself are Python
  \<^verbatim>\<open>ValueError\<close>s; they are told apart by their message:
  \<^verbatim>\<open>"Cannot tie parameter {}. It is not present in parameters {}"\<close> is
  \<open>ValueError_not_present\<close> and \<^verbatim>\<open>"Cannot tie unequal parameters {} and {}"\<close> is
  \<open>ValueError_unequal\<close>. The other constructors are the exceptions that the
  interpreter raises for a bad subscript, a bad literal, a bad unpacking or a bad
  argument.
\<close>

datatype error =
    ValueError_not_present
  | ValueError_unequal
  | ValueError
  | IndexError
  | KeyError
  | TypeError

text \<open>A Prior object is known by its address; the store maps addresses to contents.\<close>

type_synonym ref = nat

text \<open>
  Modelled from the spec: the class \<^verbatim>\<open>Prior\<close> of \<^verbatim>\<open>holopy/inference/prior.py\<close> is not
  among the sources. A Variable has an optional name, a guess and distribution
  parameters; two Variables are value-equal when all of these agree, and
  \<^verbatim>\<open>renamed(None)\<close> is a copy whose name is \<^verbatim>\<open>None\<close>.
\<close>

record prior =
  pname :: "string option"
  dist :: "real list"
  guess :: real

type_synonym heap = "ref \<Rightarrow> prior"

definition renamed :: "prior \<Rightarrow> string option \<Rightarrow> prior" where
  "renamed p new_name = p\<lparr>pname := new_name\<rparr>"

text \<open>The three callables that a map stores as data.\<close>

datatype callable = Fdict | Fmake_xarray | Fmake_complex

text \<open>
  Python values, as far as the engine tells them apart. \<open>PNum\<close> is a real scalar,
  \<open>PArray\<close> a numpy array seen as the sequence of its entries along the first axis,
  \<open>PDict\<close> a dictionary with string keys in insertion order, \<open>PXarray d ks vs\<close> an
  \<^verbatim>\<open>xarray.DataArray\<close> whose first dimension is named \<open>d\<close>, with coordinate labels
  \<open>ks\<close> and, for each label, the entry (one dimension) or the sub-array (several
  dimensions) \<open>vs\<close> at that label. \<open>PComplexPrior re im\<close> is a \<^verbatim>\<open>ComplexPrior\<close> with its
  two attributes, and \<open>PPrior r\<close> any other \<^verbatim>\<open>Prior\<close> object, at address \<open>r\<close>.
\<close>

datatype pyval =
    PNone
  | PNum real
  | PComplex real real
  | PStr string
  | PFunc callable
  | PList "pyval list"
  | PTuple "pyval list"
  | PArray "pyval list"
  | PDict "(string \<times> pyval) list"
  | PXarray string "string list" "pyval list"
  | PComplexPrior pyval pyval
  | PPrior ref

subsection \<open>Strings\<close>

definition digit_char :: "nat \<Rightarrow> char" where
  "digit_char d = char_of (48 + d)"

text \<open>\<^verbatim>\<open>str(n)\<close> for a natural number: its decimal digits.\<close>

fun str_nat :: "nat \<Rightarrow> string" where
  "str_nat n = (if n < 10 then [digit_char n]
                else str_nat (n div 10) @ [digit_char (n mod 10)])"

declare str_nat.simps [simp del]

text \<open>\<^verbatim>\<open>str(i)\<close> and \<^verbatim>\<open>'{}'.format(i)\<close> for an integer.\<close>

definition str_int :: "int \<Rightarrow> string" where
  "str_int i = (if i < 0 then CHR ''-'' # str_nat (nat (- i)) else str_nat (nat i))"

definition is_digit :: "char \<Rightarrow> bool" where
  "is_digit c = (48 \<le> (of_char c :: nat) \<and> (of_char c :: nat) \<le> 57)"

definition digit_val :: "char \<Rightarrow> nat" where
  "digit_val c = of_char c - 48"

text \<open>
  \<^verbatim>\<open>int(s)\<close> on the literals that \<^verbatim>\<open>'_parameter_{}'.format(index)\<close> and
  \<^verbatim>\<open>str(counter + 1)\<close> write: a non-empty run of decimal digits. Any other string is
  a \<^verbatim>\<open>ValueError\<close> here (Python also reads a sign and surrounding blanks).
\<close>

definition py_int :: "string \<Rightarrow> nat option" where
  "py_int s = (if s \<noteq> [] \<and> list_all is_digit s
               then Some (foldl (\<lambda>a c. 10 * a + digit_val c) 0 s) else None)"

text \<open>\<^verbatim>\<open>s.split("_")[-1]\<close>: what follows the last underscore.\<close>

definition last_piece :: "string \<Rightarrow> string" where
  "last_piece s = rev (takeWhile (\<lambda>c. c \<noteq> CHR ''_'') (rev s))"

text \<open>\<^verbatim>\<open>s.split(':', 1)[-1]\<close>: what follows the first colon, or all of \<open>s\<close>.\<close>

definition after_colon :: "string \<Rightarrow> string" where
  "after_colon s = (if CHR '':'' \<in> set s then tl (dropWhile (\<lambda>c. c \<noteq> CHR '':'') s) else s)"

text \<open>\<^verbatim>\<open>'_parameter_{}'.format(index)\<close>\<close>

definition parameter_str :: "int \<Rightarrow> string" where
  "parameter_str index = ''_parameter_'' @ str_int index"

text \<open>\<^verbatim>\<open>isinstance(map_entry, str) and map_entry[:11] == '_parameter_'\<close>, on the string.\<close>

definition is_parameter_str :: "string \<Rightarrow> bool" where
  "is_parameter_str s = (take 11 s = ''_parameter_'')"

subsection \<open>Comprehensions that may raise\<close>

text \<open>A list comprehension stops at the first element whose evaluation raises.\<close>

fun collect :: "(error + 'a) list \<Rightarrow> error + 'a list" where
  "collect [] = Inr []"
| "collect (x # xs) =
     (case x of Inl e \<Rightarrow> Inl e
      | Inr v \<Rightarrow> (case collect xs of Inl e \<Rightarrow> Inl e | Inr vs \<Rightarrow> Inr (v # vs)))"

section \<open>The tie editor\<close>

text \<open>
  \<^verbatim>\<open>edit_map_indices(map_entry, indices)\<close>. The shift is computed in the integers, as
  numpy does: \<^verbatim>\<open>(np.array(indices) < old_index).sum() - 1\<close>.
\<close>

fun edit_map_indices :: "pyval \<Rightarrow> nat list \<Rightarrow> error + pyval" where
  "edit_map_indices (PList items) indices =
     (case collect (map (\<lambda>item. edit_map_indices item indices) items) of
        Inl e \<Rightarrow> Inl e
      | Inr items' \<Rightarrow> Inr (PList items'))"
| "edit_map_indices (PStr s) indices =
     (if is_parameter_str s then
        (case py_int (last_piece s) of
           None \<Rightarrow> Inl ValueError
         | Some old_index \<Rightarrow>
            (if old_index \<in> set indices then Inr (PStr (parameter_str (int (indices ! 0))))
             else (case indices of
                     [] \<Rightarrow> Inl IndexError
                   | i0 # _ \<Rightarrow>
                      (if old_index < i0 then Inr (PStr (parameter_str (int old_index)))
                       else
                         (let shift = int (length (filter (\<lambda>i. i < old_index) indices)) - 1;
                              new_index = int old_index - shift
                          in Inr (PStr (parameter_str new_index)))))))
      else Inr (PStr s))"
| "edit_map_indices PNone indices = Inr PNone"
| "edit_map_indices (PNum x) indices = Inr (PNum x)"
| "edit_map_indices (PComplex x y) indices = Inr (PComplex x y)"
| "edit_map_indices (PFunc f) indices = Inr (PFunc f)"
| "edit_map_indices (PTuple xs) indices = Inr (PTuple xs)"
| "edit_map_indices (PArray xs) indices = Inr (PArray xs)"
| "edit_map_indices (PDict kvs) indices = Inr (PDict kvs)"
| "edit_map_indices (PXarray d ks vs) indices = Inr (PXarray d ks vs)"
| "edit_map_indices (PComplexPrior re im) indices = Inr (PComplexPrior re im)"
| "edit_map_indices (PPrior r) indices = Inr (PPrior r)"

section \<open>The model and its registry\<close>

text \<open>
  The attributes \<^verbatim>\<open>_parameters\<close>, \<^verbatim>\<open>_parameter_names\<close> and \<^verbatim>\<open>_maps\<close> of a
  \<^verbatim>\<open>Model\<close>. The parameter list holds the addresses of the registered Prior
  objects; \<^verbatim>\<open>_maps\<close> is a dictionary in insertion order.
\<close>

record model =
  u_parameters :: "ref list"
  u_parameter_names :: "string list"
  u_maps :: "(string \<times> pyval) list"

text \<open>\<^verbatim>\<open>list.index(x)\<close>, and the position at which an \<^verbatim>\<open>enumerate\<close> loop breaks.\<close>

fun first_index :: "'a list \<Rightarrow> 'a \<Rightarrow> nat option" where
  "first_index [] x = None"
| "first_index (y # ys) x = (if y = x then Some 0 else map_option Suc (first_index ys x))"

text \<open>
  One round of the renaming loop of \<^verbatim>\<open>_check_for_ties\<close>:
  \<^verbatim>\<open>counter, reversename = name[::-1].split("_", 1)\<close> and
  \<^verbatim>\<open>name = reversename[::-1] + "_" + str(int(counter[::-1]) + 1)\<close>.
  Without an underscore the unpacking raises.
\<close>

definition bump_name :: "string \<Rightarrow> error + string" where
  "bump_name name =
     (if CHR ''_'' \<notin> set name then Inl ValueError
      else
        (let counter = takeWhile (\<lambda>c. c \<noteq> CHR ''_'') (rev name);
             reversename = tl (dropWhile (\<lambda>c. c \<noteq> CHR ''_'') (rev name))
         in (case py_int (rev counter) of
               None \<Rightarrow> Inl ValueError
             | Some c \<Rightarrow> Inr (rev reversename @ ''_'' @ str_nat (c + 1)))))"

text \<open>What a name denotes when it is read as \<open>base_counter\<close>.\<close>

definition name_base :: "string \<Rightarrow> string" where
  "name_base name = rev (tl (dropWhile (\<lambda>c. c \<noteq> CHR ''_'') (rev name)))"

definition name_counter :: "string \<Rightarrow> nat" where
  "name_counter name = (case py_int (last_piece name) of None \<Rightarrow> 0 | Some c \<Rightarrow> c)"

definition numbered :: "string \<Rightarrow> nat \<Rightarrow> string" where
  "numbered base c = base @ ''_'' @ str_nat c"

text \<open>The measure of the renaming loop: the names still ahead of the counter.\<close>

definition later_names :: "string list \<Rightarrow> string \<Rightarrow> string list" where
  "later_names names name =
     filter (\<lambda>s. \<exists>k\<ge>name_counter name. s = numbered (name_base name) k) names"

definition name_measure :: "string list \<times> string \<Rightarrow> nat" where
  "name_measure = (\<lambda>(names, name).
     2 * length (later_names names name)
     + (if name = numbered (name_base name) (name_counter name) then 0 else 1))"

text \<open>
  The loop \<^verbatim>\<open>while name in self._parameter_names\<close> of \<^verbatim>\<open>_check_for_ties\<close>. It is a
  total function: the proof of termination is given with the lemmas on names below.
\<close>

function unique_name :: "string list \<Rightarrow> string \<Rightarrow> error + string" where
  "unique_name names name =
     (if name \<in> set names then
        (case bump_name name of Inl e \<Rightarrow> Inl e | Inr name' \<Rightarrow> unique_name names name')
      else Inr name)"
  by pat_completeness auto

text \<open>
  \<^verbatim>\<open>Model._check_for_ties(parameter, name)\<close>. \<^verbatim>\<open>existing is parameter\<close> compares
  addresses. The result is the index and the model after the call.
\<close>

definition check_for_ties :: "heap \<Rightarrow> ref \<Rightarrow> string \<Rightarrow> model \<Rightarrow> error + (nat \<times> model)" where
  "check_for_ties h parameter name self =
     (case first_index (u_parameters self) parameter of
        Some index \<Rightarrow>
          (if length (u_parameter_names self) \<le> index then Inl IndexError
           else
             (let shared_name = after_colon (u_parameter_names self ! index)
              in (if shared_name \<notin> set (u_parameter_names self)
                  then Inr (index, self\<lparr>u_parameter_names :=
                                          (u_parameter_names self)[index := shared_name]\<rparr>)
                  else Inr (index, self))))
      | None \<Rightarrow>
          (let index = length (u_parameters self);
               name1 = (case pname (h parameter) of Some n \<Rightarrow> n | None \<Rightarrow> name);
               name2 = (if name1 \<in> set (u_parameter_names self) then name1 @ ''_0'' else name1)
           in (case unique_name (u_parameter_names self) name2 of
                 Inl e \<Rightarrow> Inl e
               | Inr name3 \<Rightarrow>
                   Inr (index, self\<lparr>u_parameters := u_parameters self @ [parameter],
                                     u_parameter_names := u_parameter_names self @ [name3]\<rparr>))))"

section \<open>The map builder\<close>

text \<open>\<^verbatim>\<open>enumerate(parameter)\<close>, each index already passed through \<^verbatim>\<open>str\<close>.\<close>

definition enumerate_str :: "pyval list \<Rightarrow> (string \<times> pyval) list" where
  "enumerate_str xs = zip (map str_nat [0..<length xs]) xs"

text \<open>
  \<^verbatim>\<open>[[key, val] for key, val in zip(parameter.keys(), values_map) if val is not None]\<close>
\<close>

definition dict_args :: "string list \<Rightarrow> pyval list \<Rightarrow> pyval list" where
  "dict_args keys values_map =
     map (\<lambda>(key, val). PList [PStr key, val])
         (filter (\<lambda>(key, val). val \<noteq> PNone) (zip keys values_map))"

text \<open>
  \<^verbatim>\<open>Model._convert_to_map(parameter, name)\<close> and \<^verbatim>\<open>Model._iterate_mapping(prefix, pairs)\<close>,
  with \<^verbatim>\<open>_map_dictionary\<close>, \<^verbatim>\<open>_map_xarray\<close> and \<^verbatim>\<open>_map_complex\<close> in their branches.
  The suffix of every pair is a string already (a dictionary key, a coordinate label,
  an attribute name, or \<^verbatim>\<open>str\<close> of a position). Termination is proved below.
\<close>

function convert_to_map :: "heap \<Rightarrow> pyval \<Rightarrow> string \<Rightarrow> model \<Rightarrow> error + (pyval \<times> model)"
  and iterate_mapping ::
    "heap \<Rightarrow> string \<Rightarrow> (string \<times> pyval) list \<Rightarrow> model \<Rightarrow> error + (pyval list \<times> model)"
where
  "convert_to_map h (PList xs) name self =
     (case iterate_mapping h (name @ ''.'') (enumerate_str xs) self of
        Inl e \<Rightarrow> Inl e
      | Inr (mapped, self') \<Rightarrow> Inr (PList mapped, self'))"
| "convert_to_map h (PTuple xs) name self =
     (case iterate_mapping h (name @ ''.'') (enumerate_str xs) self of
        Inl e \<Rightarrow> Inl e
      | Inr (mapped, self') \<Rightarrow> Inr (PList mapped, self'))"
| "convert_to_map h (PArray xs) name self =
     (case iterate_mapping h (name @ ''.'') (enumerate_str xs) self of
        Inl e \<Rightarrow> Inl e
      | Inr (mapped, self') \<Rightarrow> Inr (PList mapped, self'))"
| "convert_to_map h (PDict kvs) name self =
     (let prefix = (if length name > 0 then name @ ''.'' else [])
      in (case iterate_mapping h prefix kvs self of
            Inl e \<Rightarrow> Inl e
          | Inr (values_map, self') \<Rightarrow>
              Inr (PList [PFunc Fdict, PList [PList (dict_args (map fst kvs) values_map)]],
                   self')))"
| "convert_to_map h (PXarray dim_name coord_keys vals) name self =
     (case iterate_mapping h (name @ ''.'') (zip coord_keys vals) self of
        Inl e \<Rightarrow> Inl e
      | Inr (values_map, self') \<Rightarrow>
          Inr (PList [PFunc Fmake_xarray,
                      PList [PStr dim_name, PList (map PStr coord_keys), PList values_map]],
               self'))"
| "convert_to_map h (PComplexPrior re im) name self =
     (case iterate_mapping h (name @ ''.'') [(''real'', re), (''imag'', im)] self of
        Inl e \<Rightarrow> Inl e
      | Inr (mapped, self') \<Rightarrow> Inr (PList [PFunc Fmake_complex, PList mapped], self'))"
| "convert_to_map h (PPrior r) name self =
     (case check_for_ties h r name self of
        Inl e \<Rightarrow> Inl e
      | Inr (index, self') \<Rightarrow> Inr (PStr (parameter_str (int index)), self'))"
| "convert_to_map h PNone name self = Inr (PNone, self)"
| "convert_to_map h (PNum x) name self = Inr (PNum x, self)"
| "convert_to_map h (PComplex x y) name self = Inr (PComplex x y, self)"
| "convert_to_map h (PStr s) name self = Inr (PStr s, self)"
| "convert_to_map h (PFunc f) name self = Inr (PFunc f, self)"
| "iterate_mapping h prefix [] self = Inr ([], self)"
| "iterate_mapping h prefix ((suffix, parameter) # pairs) self =
     (case convert_to_map h parameter (prefix @ suffix) self of
        Inl e \<Rightarrow> Inl e
      | Inr (mapped, self') \<Rightarrow>
          (case iterate_mapping h prefix pairs self' of
             Inl e \<Rightarrow> Inl e
           | Inr (rest, self'') \<Rightarrow> Inr (mapped # rest, self'')))"
  by pat_completeness auto

text \<open>The measure of the recursion: three per constructor, and one per pair.\<close>

definition pairs_weight :: "(string \<times> pyval) list \<Rightarrow> nat" where
  "pairs_weight pairs = sum_list (map (\<lambda>(suffix, parameter). 3 * size parameter + 1) pairs)"

section \<open>The map reader\<close>

text \<open>\<^verbatim>\<open>isinstance(x, Prior)\<close>: \<^verbatim>\<open>ComplexPrior\<close> is a subclass of \<^verbatim>\<open>Prior\<close>.\<close>

fun is_prior :: "pyval \<Rightarrow> bool" where
  "is_prior (PPrior r) = True"
| "is_prior (PComplexPrior re im) = True"
| "is_prior v = False"

text \<open>A number as the pair of its real and imaginary part.\<close>

fun as_complex :: "pyval \<Rightarrow> (real \<times> real) option" where
  "as_complex (PNum x) = Some (x, 0)"
| "as_complex (PComplex x y) = Some (x, y)"
| "as_complex v = None"

text \<open>
  \<^verbatim>\<open>make_complex(real, imag)\<close>. \<^verbatim>\<open>complex(real, imag)\<close> is \<^verbatim>\<open>real + imag * 1j\<close> on
  numbers and a \<^verbatim>\<open>TypeError\<close> on the other values of the model.
\<close>

definition make_complex :: "pyval \<Rightarrow> pyval \<Rightarrow> error + pyval" where
  "make_complex re im =
     (if is_prior re \<or> is_prior im then Inr (PComplexPrior re im)
      else (case (as_complex re, as_complex im) of
              (Some (a, b), Some (c, d)) \<Rightarrow> Inr (PComplex (a - d) (b + c))
            | _ \<Rightarrow> Inl TypeError))"

text \<open>
  \<^verbatim>\<open>make_xarray(dim_name, keys, values)\<close>. \<^verbatim>\<open>values[0]\<close> raises on an empty list. Both
  branches, \<^verbatim>\<open>xr.concat\<close> of sub-arrays along the new dimension and
  \<^verbatim>\<open>xr.DataArray(np.array(values), coords=[keys], dims=dim_name)\<close>, give the array
  with the entries \<open>vals\<close> at the labels \<open>keys\<close>; xarray refuses coordinates and
  values of different lengths.
\<close>

fun str_of :: "pyval \<Rightarrow> error + string" where
  "str_of (PStr s) = Inr s"
| "str_of v = Inl TypeError"

definition make_xarray :: "pyval \<Rightarrow> pyval \<Rightarrow> pyval \<Rightarrow> error + pyval" where
  "make_xarray dim_name keys vals =
     (case vals of
        PList vs \<Rightarrow>
          (if vs = [] then Inl IndexError
           else (case dim_name of
                   PStr d \<Rightarrow>
                     (case keys of
                        PList ks \<Rightarrow>
                          (case collect (map str_of ks) of
                             Inl e \<Rightarrow> Inl e
                           | Inr labels \<Rightarrow>
                               (if length labels = length vs then Inr (PXarray d labels vs)
                                else Inl ValueError))
                      | _ \<Rightarrow> Inl TypeError)
                 | _ \<Rightarrow> Inl TypeError))
      | _ \<Rightarrow> Inl TypeError)"

text \<open>
  \<^verbatim>\<open>dict(pairs)\<close> on a list of two-element lists whose first elements are strings:
  a later pair with a key already seen replaces the value and keeps the position.
\<close>

definition pair_of :: "pyval \<Rightarrow> error + (string \<times> pyval)" where
  "pair_of item =
     (case item of
        PList [key, val] \<Rightarrow> (case key of PStr k \<Rightarrow> Inr (k, val) | _ \<Rightarrow> Inl TypeError)
      | _ \<Rightarrow> Inl TypeError)"

definition dict_of_pairs :: "(string \<times> pyval) list \<Rightarrow> (string \<times> pyval) list" where
  "dict_of_pairs kvs = foldl (\<lambda>d (k, v). AList.update k v d) [] kvs"

definition py_dict :: "pyval \<Rightarrow> error + pyval" where
  "py_dict arg =
     (case arg of
        PList items \<Rightarrow>
          (case collect (map pair_of items) of
             Inl e \<Rightarrow> Inl e
           | Inr kvs \<Rightarrow> Inr (PDict (dict_of_pairs kvs)))
      | PDict kvs \<Rightarrow> Inr (PDict kvs)
      | _ \<Rightarrow> Inl TypeError)"

text \<open>\<^verbatim>\<open>func(*args)\<close> for the three callables; a wrong number of arguments raises.\<close>

fun apply_callable :: "callable \<Rightarrow> pyval list \<Rightarrow> error + pyval" where
  "apply_callable Fdict args =
     (case args of [] \<Rightarrow> Inr (PDict []) | [arg] \<Rightarrow> py_dict arg | _ \<Rightarrow> Inl TypeError)"
| "apply_callable Fmake_xarray args =
     (case args of
        [dim_name, keys, vals] \<Rightarrow> make_xarray dim_name keys vals
      | _ \<Rightarrow> Inl TypeError)"
| "apply_callable Fmake_complex args =
     (case args of [re, im] \<Rightarrow> make_complex re im | _ \<Rightarrow> Inl TypeError)"

text \<open>
  \<^verbatim>\<open>len(map_entry) == 2 and callable(map_entry[0])\<close>, with the unpacking
  \<^verbatim>\<open>func, args = map_entry\<close>.
\<close>

definition stored_call :: "pyval list \<Rightarrow> (callable \<times> pyval) option" where
  "stored_call map_entry =
     (case map_entry of
        [first, args] \<Rightarrow> (case first of PFunc func \<Rightarrow> Some (func, args) | _ \<Rightarrow> None)
      | _ \<Rightarrow> None)"

text \<open>
  \<^verbatim>\<open>for arg in args\<close>: the arguments of a stored call are iterated as a list, a
  tuple or an array (the builder writes a list); another value is a \<^verbatim>\<open>TypeError\<close>
  in the model.
\<close>

fun iter_list :: "pyval \<Rightarrow> pyval list option" where
  "iter_list (PList xs) = Some xs"
| "iter_list (PTuple xs) = Some xs"
| "iter_list (PArray xs) = Some xs"
| "iter_list v = None"

text \<open>\<^verbatim>\<open>read_map(map_entry, parameter_values)\<close>. Termination is proved below.\<close>

function read_map :: "pyval \<Rightarrow> pyval list \<Rightarrow> error + pyval" where
  "read_map (PStr s) parameter_values =
     (if is_parameter_str s then
        (case py_int (drop 11 s) of
           None \<Rightarrow> Inl ValueError
         | Some i \<Rightarrow>
             (if i < length parameter_values then Inr (parameter_values ! i)
              else Inl IndexError))
      else Inr (PStr s))"
| "read_map (PList map_entry) parameter_values =
     (case stored_call map_entry of
        Some (func, args) \<Rightarrow>
          (case iter_list args of
             None \<Rightarrow> Inl TypeError
           | Some arg_list \<Rightarrow>
               (case collect (map (\<lambda>arg. read_map arg parameter_values) arg_list) of
                  Inl e \<Rightarrow> Inl e
                | Inr vals \<Rightarrow> apply_callable func vals))
      | None \<Rightarrow>
          (case collect (map (\<lambda>item. read_map item parameter_values) map_entry) of
             Inl e \<Rightarrow> Inl e
           | Inr items \<Rightarrow> Inr (PList items)))"
| "read_map PNone parameter_values = Inr PNone"
| "read_map (PNum x) parameter_values = Inr (PNum x)"
| "read_map (PComplex x y) parameter_values = Inr (PComplex x y)"
| "read_map (PFunc f) parameter_values = Inr (PFunc f)"
| "read_map (PTuple xs) parameter_values = Inr (PTuple xs)"
| "read_map (PArray xs) parameter_values = Inr (PArray xs)"
| "read_map (PDict kvs) parameter_values = Inr (PDict kvs)"
| "read_map (PXarray d ks vs) parameter_values = Inr (PXarray d ks vs)"
| "read_map (PComplexPrior re im) parameter_values = Inr (PComplexPrior re im)"
| "read_map (PPrior r) parameter_values = Inr (PPrior r)"
  by pat_completeness auto

text \<open>\<^verbatim>\<open>Model.initial_guess\<close>: \<^verbatim>\<open>[par.guess for par in self._parameters]\<close>\<close>

definition initial_guess :: "heap \<Rightarrow> model \<Rightarrow> pyval list" where
  "initial_guess h self = map (\<lambda>par. PNum (guess (h par))) (u_parameters self)"

section \<open>Tying parameters\<close>

text \<open>
  The property \<^verbatim>\<open>Model.parameters\<close>: the dictionary
  \<^verbatim>\<open>{name: par for name, par in zip(self._parameter_names, self._parameters)}\<close>.
  A name that occurs twice keeps the parameter of its last occurrence.
\<close>

definition parameters :: "model \<Rightarrow> string \<Rightarrow> ref option" where
  "parameters self = map_of (rev (zip (u_parameter_names self) (u_parameters self)))"

text \<open>
  The first loop of \<^verbatim>\<open>add_tie\<close>, over \<^verbatim>\<open>parameters_to_tie\<close>; \<open>first\<close> is
  \<^verbatim>\<open>parameters_to_tie[0]\<close> and \<open>indices\<close> the list built so far. A subscript of the
  dictionary with an absent key raises \<^verbatim>\<open>KeyError\<close>. Two Priors are compared by
  value, after \<^verbatim>\<open>renamed(None)\<close>.
\<close>

fun tie_indices :: "heap \<Rightarrow> model \<Rightarrow> string \<Rightarrow> string list \<Rightarrow> nat list \<Rightarrow> error + nat list" where
  "tie_indices h self first [] indices = Inr indices"
| "tie_indices h self first (par # rest) indices =
     (if par \<notin> set (u_parameter_names self) then Inl ValueError_not_present
      else
        (case parameters self first of
           None \<Rightarrow> Inl KeyError
         | Some first_par \<Rightarrow>
             (let first_value = renamed (h first_par) None
              in (case parameters self par of
                    None \<Rightarrow> Inl KeyError
                  | Some this_par \<Rightarrow>
                      (if \<not> (renamed (h this_par) None = first_value) then Inl ValueError_unequal
                       else
                         (case first_index (u_parameter_names self) par of
                            None \<Rightarrow> Inl ValueError
                          | Some i \<Rightarrow> tie_indices h self first rest (indices @ [i])))))))"

text \<open>\<^verbatim>\<open>del(xs[index])\<close> for an index in range.\<close>

definition del_at :: "nat \<Rightarrow> 'a list \<Rightarrow> 'a list" where
  "del_at index xs = take index xs @ drop (Suc index) xs"

text \<open>
  The second loop of \<^verbatim>\<open>add_tie\<close>, over \<^verbatim>\<open>indices[:0:-1]\<close>: the two \<^verbatim>\<open>del\<close> statements.
  A \<^verbatim>\<open>del\<close> out of range raises, and the model stays as the earlier statements left
  it. The result is the exception, if any, and the model.
\<close>

fun del_slots :: "nat list \<Rightarrow> model \<Rightarrow> error option \<times> model" where
  "del_slots [] self = (None, self)"
| "del_slots (index # rest) self =
     (if length (u_parameters self) \<le> index then (Some IndexError, self)
      else
        (let self1 = self\<lparr>u_parameters := del_at index (u_parameters self)\<rparr>
         in (if length (u_parameter_names self1) \<le> index then (Some IndexError, self1)
             else del_slots rest
                    (self1\<lparr>u_parameter_names := del_at index (u_parameter_names self1)\<rparr>))))"

text \<open>
  \<^verbatim>\<open>{key: edit_map_indices(val, indices) for key, val in self._maps.items()}\<close>
\<close>

definition edit_maps :: "(string \<times> pyval) list \<Rightarrow> nat list \<Rightarrow> error + (string \<times> pyval) list" where
  "edit_maps ms indices =
     collect (map (\<lambda>(key, val). case edit_map_indices val indices of
                                    Inl e \<Rightarrow> Inl e
                                  | Inr val' \<Rightarrow> Inr (key, val')) ms)"

text \<open>
  \<^verbatim>\<open>Model.add_tie(parameters_to_tie, new_name)\<close>. The result is the exception raised,
  if any, and the model as the call leaves it.
\<close>

definition add_tie :: "heap \<Rightarrow> string list \<Rightarrow> string option \<Rightarrow> model \<Rightarrow> error option \<times> model" where
  "add_tie h parameters_to_tie new_name self =
     (case tie_indices h self (hd parameters_to_tie) parameters_to_tie [] of
        Inl e \<Rightarrow> (Some e, self)
      | Inr unsorted \<Rightarrow>
          (let indices = sort unsorted
           in (case del_slots (rev (tl indices)) self of
                 (Some e, self1) \<Rightarrow> (Some e, self1)
               | (None, self1) \<Rightarrow>
                   (case (case new_name of
                            None \<Rightarrow> Inr self1
                          | Some n \<Rightarrow>
                              (if indices = [] then Inl IndexError
                               else if length (u_parameter_names self1) \<le> indices ! 0
                               then Inl IndexError
                               else Inr (self1\<lparr>u_parameter_names :=
                                                  (u_parameter_names self1)[indices ! 0 := n]\<rparr>)))
                    of
                      Inl e \<Rightarrow> (Some e, self1)
                    | Inr self2 \<Rightarrow>
                        (case edit_maps (u_maps self2) indices of
                           Inl e \<Rightarrow> (Some e, self2)
                         | Inr ms \<Rightarrow> (None, self2\<lparr>u_maps := ms\<rparr>))))))"

section \<open>Slot references and the spec's renumbering\<close>

text \<open>The placeholder for slot \<open>k\<close>, as the builder writes it.\<close>

definition slot :: "nat \<Rightarrow> pyval" where
  "slot k = PStr (parameter_str (int k))"

text \<open>
  A map whose placeholders all are \<open>slot k\<close> for some \<open>k\<close> below \<open>n\<close>, under lists.
\<close>

fun wf_map :: "nat \<Rightarrow> pyval \<Rightarrow> bool" where
  "wf_map n (PList items) = list_all (wf_map n) items"
| "wf_map n (PStr s) =
     (if is_parameter_str s
      then (case py_int (drop 11 s) of None \<Rightarrow> False | Some k \<Rightarrow> k < n \<and> PStr s = slot k)
      else True)"
| "wf_map n v = True"

text \<open>
  The spec's \<^verbatim>\<open>retarget(map, renumbering)\<close>: every \<^verbatim>\<open>SlotRef(i)\<close> becomes
  \<^verbatim>\<open>SlotRef(renumbering[i])\<close>, constants and shape stay.
\<close>

fun retarget :: "(nat \<Rightarrow> nat) \<Rightarrow> pyval \<Rightarrow> pyval" where
  "retarget rn (PList items) = PList (map (retarget rn) items)"
| "retarget rn (PStr s) =
     (if is_parameter_str s
      then (case py_int (drop 11 s) of None \<Rightarrow> PStr s | Some i \<Rightarrow> slot (rn i))
      else PStr s)"
| "retarget rn v = v"

text \<open>
  The spec's renumbering for a tie of the indices \<open>I\<close>: a tied index goes to the
  least of them, an index below it stays, and a higher index moves down by the number
  of removed indices below it.
\<close>

definition renumbering :: "nat set \<Rightarrow> nat \<Rightarrow> nat" where
  "renumbering I old =
     (if old \<in> I then Min I
      else if old < Min I then old
      else old - card {i \<in> I - {Min I}. i < old})"

text \<open>
  The example of the spec: five slots named a to e, with a scatterer map that refers
  to each of them and an optics map that refers to two.
\<close>

definition abcde :: model where
  "abcde = \<lparr>u_parameters = [0, 1, 2, 3, 4],
            u_parameter_names = [''a'', ''b'', ''c'', ''d'', ''e''],
            u_maps = [(''scatterer'',
                       PList [PFunc Fdict, PList [PList
                         [PList [PStr ''r'', PList [slot 0, slot 1, slot 2]],
                          PList [PStr ''n'', slot 3],
                          PList [PStr ''center'', slot 4]]]]),
                      (''optics'',
                       PList [PFunc Fdict, PList [PList
                         [PList [PStr ''illum_wavelen'', slot 3],
                          PList [PStr ''noise_sd'', slot 1]]]])]\<rparr>"

text \<open>A store in which every Variable is the same unnamed distribution.\<close>

definition same_priors :: heap where
  "same_priors = (\<lambda>r. \<lparr>pname = None, dist = [0, 1], guess = 1 / 2\<rparr>)"

text \<open>
  What a name stands for when two parameters are compared in \<^verbatim>\<open>add_tie\<close>:
  \<^verbatim>\<open>self.parameters[par].renamed(None)\<close>, if the name is a key.
\<close>

definition stripped :: "heap \<Rightarrow> model \<Rightarrow> string \<Rightarrow> prior option" where
  "stripped h self par = map_option (\<lambda>r. renamed (h r) None) (parameters self par)"

text \<open>A store in which the Variable at address 3 has other bounds than the rest.\<close>

definition mixed_priors :: heap where
  "mixed_priors = (\<lambda>r. if r = 3 then \<lparr>pname = None, dist = [0, 2], guess = 1 / 2\<rparr>
                        else \<lparr>pname = None, dist = [0, 1], guess = 1 / 2\<rparr>)"

text \<open>A model that has registered nothing yet.\<close>

definition empty_model :: model where
  "empty_model = \<lparr>u_parameters = [], u_parameter_names = [], u_maps = []\<rparr>"

section \<open>Configurations and what they read back as\<close>

text \<open>
  The last branch of \<^verbatim>\<open>_convert_to_map\<close>: a value that is no list, tuple or array, no
  dictionary, no labelled array and no Prior is a fixed leaf.
\<close>

fun constant_leaf :: "pyval \<Rightarrow> bool" where
  "constant_leaf (PList xs) = False"
| "constant_leaf (PTuple xs) = False"
| "constant_leaf (PArray xs) = False"
| "constant_leaf (PDict kvs) = False"
| "constant_leaf (PXarray d ks vs) = False"
| "constant_leaf (PComplexPrior re im) = False"
| "constant_leaf (PPrior r) = False"
| "constant_leaf v = True"

text \<open>A leaf that the reader does not take for a placeholder.\<close>

fun plain_leaf :: "pyval \<Rightarrow> bool" where
  "plain_leaf (PStr s) = (\<not> is_parameter_str s)"
| "plain_leaf v = constant_leaf v"

text \<open>A part of a complex pair: a number or a free Variable.\<close>

fun complex_part :: "pyval \<Rightarrow> bool" where
  "complex_part (PNum x) = True"
| "complex_part (PPrior r) = True"
| "complex_part v = False"

text \<open>
  The configurations of the round trip: sequences, dictionaries, labelled arrays,
  complex pairs, free Variables and constants, nested at will, where no string (constant,
  key, label or dimension name) begins with \<^verbatim>\<open>_parameter_\<close>, no constant is a callable,
  a dictionary has each key once, and a labelled array has one label for each of its
  entries and at least one entry.
\<close>

fun supported :: "pyval \<Rightarrow> bool" where
  "supported (PList xs) = list_all supported xs"
| "supported (PTuple xs) = list_all supported xs"
| "supported (PArray xs) = list_all supported xs"
| "supported (PDict kvs) =
     (distinct (map fst kvs) \<and> list_all (\<lambda>(k, v). \<not> is_parameter_str k \<and> supported v) kvs)"
| "supported (PXarray d ks vs) =
     (\<not> is_parameter_str d \<and> list_all (\<lambda>k. \<not> is_parameter_str k) ks
      \<and> vs \<noteq> [] \<and> length ks = length vs \<and> list_all supported vs)"
| "supported (PComplexPrior re im) = (complex_part re \<and> complex_part im)"
| "supported (PPrior r) = True"
| "supported (PStr s) = (\<not> is_parameter_str s)"
| "supported (PFunc f) = False"
| "supported PNone = True"
| "supported (PNum x) = True"
| "supported (PComplex x y) = True"

text \<open>The value of a part of a complex pair when every Variable takes its guess.\<close>

fun part_value :: "heap \<Rightarrow> pyval \<Rightarrow> real" where
  "part_value h (PNum x) = x"
| "part_value h (PPrior r) = guess (h r)"
| "part_value h v = 0"

text \<open>
  What a configuration reads back as from the guesses: every free Variable is replaced
  by its guess, a tuple or an array comes back as a list, a dictionary comes back
  without the entries whose value is \<^verbatim>\<open>None\<close>, and a complex pair comes back as the
  complex number of its parts.
\<close>

fun guess_config :: "heap \<Rightarrow> pyval \<Rightarrow> pyval" where
  "guess_config h (PList xs) = PList (map (guess_config h) xs)"
| "guess_config h (PTuple xs) = PList (map (guess_config h) xs)"
| "guess_config h (PArray xs) = PList (map (guess_config h) xs)"
| "guess_config h (PDict kvs) =
     PDict (map (\<lambda>(k, v). (k, guess_config h v)) (filter (\<lambda>(k, v). v \<noteq> PNone) kvs))"
| "guess_config h (PXarray d ks vs) = PXarray d ks (map (guess_config h) vs)"
| "guess_config h (PComplexPrior re im) = PComplex (part_value h re) (part_value h im)"
| "guess_config h (PPrior r) = PNum (guess (h r))"
| "guess_config h v = v"

text \<open>
  A map \<open>m\<close> that stands for the configuration \<open>v\<close> in the model \<open>self\<close>: it reads back
  as \<open>v\<close> from the guesses, also when more slots follow, it is \<^verbatim>\<open>None\<close> only for
  \<^verbatim>\<open>None\<close>, and it is no callable.
\<close>

definition reads_as :: "heap \<Rightarrow> model \<Rightarrow> pyval \<Rightarrow> pyval \<Rightarrow> bool" where
  "reads_as h self m v =
     ((\<forall>more. read_map m (initial_guess h self @ more) = Inr (guess_config h v))
      \<and> (m = PNone) = (v = PNone) \<and> (\<forall>f. m \<noteq> PFunc f))"

text \<open>The registry \<open>self'\<close> extends the registry \<open>self\<close>, and its two lists agree in length.\<close>

definition grows :: "model \<Rightarrow> model \<Rightarrow> bool" where
  "grows self self' =
     (length (u_parameter_names self') = length (u_parameters self')
      \<and> (\<exists>extra. u_parameters self' = u_parameters self @ extra))"

text \<open>
  An example configuration: a dictionary with a list, a complex pair, a tuple, an
  omitted entry and a labelled array; the Variable at address 0 occurs twice.
\<close>

definition sphere :: pyval where
  "sphere = PDict [(''r'', PList [PPrior 0, PNum 1]),
                   (''n'', PComplexPrior (PPrior 1) (PNum (1 / 10))),
                   (''center'', PTuple [PPrior 0, PNone, PPrior 2]),
                   (''skip'', PNone),
                   (''wl'', PXarray ''illumination'' [''red'', ''green''] [PPrior 3, PNum 2])]"

section \<open>Decimal numerals and names\<close>

lemma is_digit_digit_char: "d < 10 \<Longrightarrow> is_digit (digit_char d)"
  by (simp add: is_digit_def digit_char_def)

lemma digit_val_digit_char: "d < 10 \<Longrightarrow> digit_val (digit_char d) = d"
  by (simp add: digit_val_def digit_char_def)

lemma str_nat_digits: "list_all is_digit (str_nat n)"
proof (induction n rule: str_nat.induct)
  case (1 n)
  show ?case
  proof (cases "n < 10")
    case True
    then show ?thesis by (subst str_nat.simps) (simp add: is_digit_digit_char)
  next
    case False
    with 1 show ?thesis by (subst str_nat.simps) (simp add: is_digit_digit_char)
  qed
qed

lemma str_nat_nonempty: "str_nat n \<noteq> []"
  by (subst str_nat.simps) simp

lemma foldl_str_nat: "foldl (\<lambda>a c. 10 * a + digit_val c) 0 (str_nat n) = n"
proof (induction n rule: str_nat.induct)
  case (1 n)
  show ?case
  proof (cases "n < 10")
    case True
    then show ?thesis by (subst str_nat.simps) (simp add: digit_val_digit_char)
  next
    case False
    with 1 show ?thesis by (subst str_nat.simps) (simp add: digit_val_digit_char)
  qed
qed

lemma py_int_str_nat: "py_int (str_nat n) = Some n"
  by (simp add: py_int_def str_nat_digits str_nat_nonempty foldl_str_nat)

lemma str_nat_inj: "str_nat a = str_nat b \<Longrightarrow> a = b"
  by (metis py_int_str_nat option.inject)

lemma is_digit_not_underscore: "is_digit c \<Longrightarrow> c \<noteq> CHR ''_''"
  by (auto simp: is_digit_def)

lemma str_nat_no_underscore: "CHR ''_'' \<notin> set (str_nat n)"
  using str_nat_digits [of n] is_digit_not_underscore by (auto simp: list_all_iff)

lemma takeWhile_until: "x \<notin> set d \<Longrightarrow> takeWhile (\<lambda>c. c \<noteq> x) (d @ x # r) = d"
  by (induction d) auto

lemma dropWhile_until: "x \<notin> set d \<Longrightarrow> dropWhile (\<lambda>c. c \<noteq> x) (d @ x # r) = x # r"
  by (induction d) auto

lemma last_piece_numbered: "last_piece (numbered b c) = str_nat c"
  using str_nat_no_underscore [of c]
  by (simp add: numbered_def last_piece_def takeWhile_until)

lemma name_base_numbered: "name_base (numbered b c) = b"
  using str_nat_no_underscore [of c]
  by (simp add: numbered_def name_base_def dropWhile_until)

lemma name_counter_numbered: "name_counter (numbered b c) = c"
  by (simp add: name_counter_def last_piece_numbered py_int_str_nat)

lemma numbered_inj: "numbered b c = numbered b c' \<Longrightarrow> c = c'"
  by (simp add: numbered_def str_nat_inj)

lemma bump_name_Inr:
  "bump_name name = Inr name' \<Longrightarrow> name' = numbered (name_base name) (name_counter name + 1)"
  by (auto simp: bump_name_def name_base_def name_counter_def last_piece_def numbered_def Let_def
      split: if_splits option.splits)

lemma bump_name_numbered: "bump_name (numbered b c) = Inr (numbered b (c + 1))"
proof -
  have u: "CHR ''_'' \<in> set (numbered b c)" by (simp add: numbered_def)
  have t: "takeWhile (\<lambda>c. c \<noteq> CHR ''_'') (rev (numbered b c)) = rev (str_nat c)"
    using str_nat_no_underscore [of c] by (simp add: numbered_def takeWhile_until)
  have d: "dropWhile (\<lambda>c. c \<noteq> CHR ''_'') (rev (numbered b c)) = CHR ''_'' # rev b"
    using str_nat_no_underscore [of c] by (simp add: numbered_def dropWhile_until)
  show ?thesis
    unfolding bump_name_def Let_def t d using u
    by (simp add: py_int_str_nat numbered_def)
qed

lemma length_filter_mono:
  "(\<And>x. x \<in> set xs \<Longrightarrow> P x \<Longrightarrow> Q x) \<Longrightarrow> length (filter P xs) \<le> length (filter Q xs)"
  by (induction xs) auto

lemma length_filter_strict:
  "(\<And>x. x \<in> set xs \<Longrightarrow> P x \<Longrightarrow> Q x) \<Longrightarrow> y \<in> set xs \<Longrightarrow> Q y \<Longrightarrow> \<not> P y
    \<Longrightarrow> length (filter P xs) < length (filter Q xs)"
proof (induction xs)
  case Nil
  then show ?case by simp
next
  case (Cons x xs)
  have m: "length (filter P xs) \<le> length (filter Q xs)"
    using Cons.prems(1) by (intro length_filter_mono) auto
  show ?case
  proof (cases "y = x")
    case True
    with Cons.prems m show ?thesis by simp
  next
    case False
    with Cons.prems have "y \<in> set xs" by simp
    then have "length (filter P xs) < length (filter Q xs)"
      using Cons.IH Cons.prems by auto
    then show ?thesis using Cons.prems(1) [of x] by auto
  qed
qed

lemma name_measure_decreases:
  assumes "name \<in> set names" "bump_name name = Inr name'"
  shows "name_measure (names, name') < name_measure (names, name)"
proof -
  let ?b = "name_base name" and ?c = "name_counter name"
  have n': "name' = numbered ?b (?c + 1)" using assms(2) by (rule bump_name_Inr)
  have b': "name_base name' = ?b" and c': "name_counter name' = ?c + 1"
    by (simp_all add: n' name_base_numbered name_counter_numbered)
  have canon': "name' = numbered (name_base name') (name_counter name')"
    by (simp add: b' c') (simp add: n')
  have imp: "\<And>s. (\<exists>k\<ge>?c + 1. s = numbered ?b k) \<Longrightarrow> (\<exists>k\<ge>?c. s = numbered ?b k)"
  proof -
    fix s assume "\<exists>k\<ge>?c + 1. s = numbered ?b k"
    then obtain k where "k \<ge> ?c + 1" "s = numbered ?b k" by blast
    then have "k \<ge> ?c \<and> s = numbered ?b k" by simp
    then show "\<exists>k\<ge>?c. s = numbered ?b k" by blast
  qed
  have le: "length (later_names names name') \<le> length (later_names names name)"
    unfolding later_names_def b' c' by (rule length_filter_mono) (rule imp)
  show ?thesis
  proof (cases "name = numbered ?b ?c")
    case True
    have notP: "\<not> (\<exists>k\<ge>?c + 1. name = numbered ?b k)"
    proof
      assume "\<exists>k\<ge>?c + 1. name = numbered ?b k"
      then obtain k where k: "k \<ge> ?c + 1" "name = numbered ?b k" by blast
      with True have "numbered ?b ?c = numbered ?b k" by simp
      then have "?c = k" by (rule numbered_inj)
      with k show False by simp
    qed
    have Q: "\<exists>k\<ge>?c. name = numbered ?b k" using True by blast
    have "length (filter (\<lambda>s. \<exists>k\<ge>?c + 1. s = numbered ?b k) names)
          < length (filter (\<lambda>s. \<exists>k\<ge>?c. s = numbered ?b k) names)"
    proof (rule length_filter_strict [where y = name])
      show "\<And>x. x \<in> set names \<Longrightarrow> \<exists>k\<ge>?c + 1. x = numbered ?b k
                \<Longrightarrow> \<exists>k\<ge>?c. x = numbered ?b k" by (rule imp)
      show "name \<in> set names" by (rule assms(1))
      show "\<exists>k\<ge>?c. name = numbered ?b k" by (rule Q)
      show "\<not> (\<exists>k\<ge>?c + 1. name = numbered ?b k)" by (rule notP)
    qed
    then have "length (later_names names name') < length (later_names names name)"
      unfolding later_names_def b' c' .
    then show ?thesis using canon' by (simp add: name_measure_def)
  next
    case False
    then show ?thesis using canon' le by (simp add: name_measure_def)
  qed
qed

termination unique_name
  by (relation "measure name_measure") (auto intro: name_measure_decreases)

section \<open>Termination of the builder and of the reader\<close>

lemma pairs_weight_zip: "pairs_weight (zip ks xs) \<le> 3 * size_list size xs"
proof (induction xs arbitrary: ks)
  case Nil
  then show ?case by (simp add: pairs_weight_def)
next
  case (Cons x xs)
  show ?case
  proof (cases ks)
    case Nil
    then show ?thesis by (simp add: pairs_weight_def)
  next
    case (Cons k ks')
    with Cons.IH [of ks'] show ?thesis by (simp add: pairs_weight_def)
  qed
qed

lemma pairs_weight_dict: "pairs_weight kvs \<le> 3 * size_list (size_prod (\<lambda>_. 0) size) kvs"
  by (induction kvs) (auto simp: pairs_weight_def)

termination convert_to_map
proof (relation "measure (\<lambda>x. case x of
          Inl (h, parameter, name, self) \<Rightarrow> 3 * size parameter
        | Inr (h, prefix, pairs, self) \<Rightarrow> pairs_weight pairs)", goal_cases)
  case 1
  then show ?case by simp
next
  case (2 h xs name self)
  then show ?case using pairs_weight_zip [of "map str_nat [0..<length xs]" xs]
    by (simp add: enumerate_str_def)
next
  case (3 h xs name self)
  then show ?case using pairs_weight_zip [of "map str_nat [0..<length xs]" xs]
    by (simp add: enumerate_str_def)
next
  case (4 h xs name self)
  then show ?case using pairs_weight_zip [of "map str_nat [0..<length xs]" xs]
    by (simp add: enumerate_str_def)
next
  case (5 h kvs name self)
  then show ?case using pairs_weight_dict [of kvs] by simp
next
  case (6 h d ks vs name self)
  then show ?case using pairs_weight_zip [of ks vs] by simp
next
  case (7 h re im name self)
  then show ?case by (simp add: pairs_weight_def)
next
  case (8 h prefix suffix parameter pairs self)
  then show ?case by (simp add: pairs_weight_def)
next
  case (9 h prefix suffix parameter pairs self x2 x y)
  then show ?case by (simp add: pairs_weight_def)
qed

lemma size_in_list: "x \<in> set xs \<Longrightarrow> size x < Suc (size_list size xs)"
  by (induction xs) auto

lemma stored_call_args: "stored_call map_entry = Some (func, args) \<Longrightarrow> args \<in> set map_entry"
  by (auto simp: stored_call_def split: list.splits pyval.splits)

lemma iter_list_size: "iter_list args = Some arg_list \<Longrightarrow> arg \<in> set arg_list \<Longrightarrow> size arg < size args"
  by (cases args) (auto dest: size_in_list)

lemma stored_call_arg_size:
  assumes "stored_call map_entry = Some (func, args)" "iter_list args = Some arg_list"
    "arg \<in> set arg_list"
  shows "size arg < Suc (size_list size map_entry)"
proof -
  have "size arg < size args" using assms(2,3) by (rule iter_list_size)
  moreover have "size args < Suc (size_list size map_entry)"
    using assms(1) by (intro size_in_list stored_call_args)
  ultimately show ?thesis by simp
qed

termination read_map
  by (relation "measure (\<lambda>(map_entry, parameter_values). size map_entry)")
     (auto dest: stored_call_arg_size size_in_list)

section \<open>Renumbering after a tie\<close>

lemma str_int_int: "str_int (int n) = str_nat n"
  by (simp add: str_int_def)

lemma parameter_str_int: "parameter_str (int n) = ''_parameter_'' @ str_nat n"
  by (simp add: parameter_str_def str_int_int)

lemma is_parameter_str_slot: "is_parameter_str (parameter_str i)"
  by (simp add: is_parameter_str_def parameter_str_def)

lemma drop_parameter_str: "drop 11 (parameter_str (int n)) = str_nat n"
  by (simp add: parameter_str_int)

lemma last_piece_parameter_str: "last_piece (parameter_str (int n)) = str_nat n"
proof -
  have "rev (parameter_str (int n)) = rev (str_nat n) @ CHR ''_'' # rev ''_parameter''"
    by (simp add: parameter_str_int)
  moreover have "CHR ''_'' \<notin> set (rev (str_nat n))" by (simp add: str_nat_no_underscore)
  ultimately show ?thesis by (simp add: last_piece_def takeWhile_until)
qed

lemma parameter_str_inj: "parameter_str (int a) = parameter_str (int b) \<Longrightarrow> a = b"
  by (simp add: parameter_str_int str_nat_inj)

lemma sorted_hd_Min: "sorted xs \<Longrightarrow> xs \<noteq> [] \<Longrightarrow> xs ! 0 = Min (set xs)"
  by (cases xs) (auto intro!: Min_eqI [symmetric])

lemma count_below:
  assumes "distinct indices"
  shows "length (filter (\<lambda>i. i < old) indices) = card {i \<in> set indices. i < (old::nat)}"
proof -
  have "{i \<in> set indices. i < old} = {x. x < old} \<inter> set indices" by auto
  then show ?thesis using assms by (simp add: distinct_length_filter)
qed

lemma edit_slot_unfold:
  assumes "indices \<noteq> []"
  shows "edit_map_indices (slot old) indices
         = Inr (PStr (parameter_str
             (if old \<in> set indices then int (indices ! 0)
              else if old < indices ! 0 then int old
              else int old - (int (length (filter (\<lambda>i. i < old) indices)) - 1))))"
proof -
  have parse: "is_parameter_str (parameter_str (int old))"
    "py_int (last_piece (parameter_str (int old))) = Some old"
    by (simp_all add: is_parameter_str_slot last_piece_parameter_str py_int_str_nat)
  obtain i0 rest where "indices = i0 # rest" using assms by (cases indices) auto
  then show ?thesis using parse by (simp add: slot_def Let_def)
qed

lemma edit_slot:
  assumes "sorted indices" "distinct indices" "indices \<noteq> []"
  shows "edit_map_indices (slot old) indices = Inr (slot (renumbering (set indices) old))"
proof -
  let ?I = "set indices" and ?m = "Min (set indices)"
  have hd: "indices ! 0 = ?m" using assms by (simp add: sorted_hd_Min)
  note unf = edit_slot_unfold [OF assms(3), of old, unfolded hd]
  show ?thesis
  proof (cases "old \<in> ?I")
    case True
    then show ?thesis unfolding unf by (simp add: slot_def renumbering_def)
  next
    case notin: False
    show ?thesis
    proof (cases "old < ?m")
      case True
      then show ?thesis unfolding unf using notin by (simp add: slot_def renumbering_def)
    next
      case False
      have mI: "?m \<in> ?I" using assms(3) by (intro Min_in) auto
      with notin False have lt: "?m < old" by (metis linorder_neqE_nat)
      have split: "{i \<in> ?I. i < old} = insert ?m {i \<in> ?I - {?m}. i < old}"
        using mI lt by auto
      have "card {i \<in> ?I. i < old} = Suc (card {i \<in> ?I - {?m}. i < old})"
        by (subst split) (simp add: card_insert_if)
      then have cnt: "int (length (filter (\<lambda>i. i < old) indices)) - 1
                 = int (card {i \<in> ?I - {?m}. i < old})"
        using assms(2) by (simp add: count_below)
      have "card {i \<in> ?I - {?m}. i < old} \<le> card {i. i < old}"
        by (intro card_mono) auto
      then have le: "card {i \<in> ?I - {?m}. i < old} \<le> old" by simp
      have "edit_map_indices (slot old) indices
            = Inr (PStr (parameter_str (int old - (int (length (filter (\<lambda>i. i < old) indices)) - 1))))"
        unfolding unf using notin False by simp
      also have "\<dots> = Inr (slot (old - card {i \<in> ?I - {?m}. i < old}))"
        unfolding cnt slot_def using le by (simp add: of_nat_diff)
      finally show ?thesis using notin False by (simp add: renumbering_def)
    qed
  qed
qed


lemma collect_map_Inr: "(\<And>x. x \<in> set xs \<Longrightarrow> f x = Inr (g x)) \<Longrightarrow> collect (map f xs) = Inr (map g xs)"
  by (induction xs) auto

lemma wf_map_slot: "wf_map n (PStr s) \<Longrightarrow> is_parameter_str s \<Longrightarrow> \<exists>k<n. PStr s = slot k \<and> py_int (drop 11 s) = Some k"
  by (auto split: option.splits)

lemma edit_wf:
  assumes "sorted indices" "distinct indices" "indices \<noteq> []"
  shows "wf_map n m \<Longrightarrow> edit_map_indices m indices = Inr (retarget (renumbering (set indices)) m)"
proof (induction m)
  case (PStr s)
  show ?case
  proof (cases "is_parameter_str s")
    case True
    with PStr obtain k where k: "k < n" "PStr s = slot k" "py_int (drop 11 s) = Some k"
      using wf_map_slot by blast
    have "edit_map_indices (PStr s) indices = Inr (slot (renumbering (set indices) k))"
      unfolding k(2) using assms by (rule edit_slot)
    then show ?thesis using True k(3) by simp
  next
    case False
    then show ?thesis by simp
  qed
next
  case (PList items)
  have "collect (map (\<lambda>item. edit_map_indices item indices) items)
        = Inr (map (retarget (renumbering (set indices))) items)"
    using PList by (intro collect_map_Inr) (auto simp: list_all_iff)
  then show ?case by simp
qed simp_all

lemma retarget_cong_wf:
  "wf_map n m \<Longrightarrow> (\<And>k. k < n \<Longrightarrow> f k = g k) \<Longrightarrow> retarget f m = retarget g m"
proof (induction m)
  case (PStr s)
  then show ?case by (auto split: option.splits)
next
  case (PList items)
  then show ?case by (auto simp: list_all_iff)
qed simp_all

lemma edit_maps_wf:
  assumes "sorted indices" "distinct indices" "indices \<noteq> []"
    and "\<And>key m. (key, m) \<in> set ms \<Longrightarrow> wf_map n m"
  shows "edit_maps ms indices
         = Inr (map (\<lambda>(key, m). (key, retarget (renumbering (set indices)) m)) ms)"
  unfolding edit_maps_def
  by (rule collect_map_Inr) (auto simp: edit_wf [OF assms(1-3)] dest: assms(4))

lemma renumbering_1_3:
  "renumbering {1, 3} 0 = 0" "renumbering {1, 3} 1 = 1" "renumbering {1, 3} 2 = 2"
  "renumbering {1, 3} 3 = 1" "renumbering {1, 3} 4 = 3"
proof -
  have c2: "{i. i = 3 \<and> i < (2::nat)} = {}" by auto
  have c4: "{i. i = 3 \<and> i < (4::nat)} = {3}" by auto
  show "renumbering {1, 3} 0 = 0" "renumbering {1, 3} 1 = 1" "renumbering {1, 3} 3 = 1"
    by (simp_all add: renumbering_def)
  show "renumbering {1, 3} 2 = 2" by (simp add: renumbering_def c2)
  show "renumbering {1, 3} 4 = 3" by (simp add: renumbering_def c4)
qed


lemma tie_indices_1_3:
  assumes names: "u_parameter_names self = [n0, n1, n2, n3, n4]" "distinct [n0, n1, n2, n3, n4]"
    and params: "u_parameters self = [r0, r1, r2, r3, r4]"
    and eq: "renamed (h r1) None = renamed (h r3) None"
  shows "tie_indices h self n1 [n1, n3] [] = Inr [1, 3]"
proof -
  have p1: "parameters self n1 = Some r1" and p3: "parameters self n3 = Some r3"
    using names params by (auto simp: parameters_def)
  have i1: "first_index (u_parameter_names self) n1 = Some 1"
    and i3: "first_index (u_parameter_names self) n3 = Some 3"
    using names by auto
  have mem: "n1 \<in> set (u_parameter_names self)" "n3 \<in> set (u_parameter_names self)"
    using names by auto
  show ?thesis using mem by (simp add: p1 p3 i1 i3 eq)
qed

lemma add_tie_1_3:
  assumes names: "u_parameter_names self = [n0, n1, n2, n3, n4]" "distinct [n0, n1, n2, n3, n4]"
    and params: "u_parameters self = [r0, r1, r2, r3, r4]"
    and eq: "renamed (h r1) None = renamed (h r3) None"
    and wf: "\<And>key m. (key, m) \<in> set (u_maps self) \<Longrightarrow> wf_map 5 m"
  shows "add_tie h [n1, n3] new_name self =
     (None, self\<lparr>u_parameters := [r0, r1, r2, r4],
                   u_parameter_names := [n0, case new_name of None \<Rightarrow> n1 | Some n \<Rightarrow> n, n2, n4],
                   u_maps := map (\<lambda>(key, m). (key, retarget (renumbering {1, 3}) m)) (u_maps self)\<rparr>)"
proof -
  have ti: "tie_indices h self (hd [n1, n3]) [n1, n3] [] = Inr [1, 3]"
    using tie_indices_1_3 [OF names params eq] by simp
  have srt: "sort [1, 3 :: nat] = [1, 3]" by simp
  have del: "del_slots (rev (tl [1, 3])) self
     = (None, self\<lparr>u_parameters := [r0, r1, r2, r4], u_parameter_names := [n0, n1, n2, n4]\<rparr>)"
    by (simp add: names params del_at_def)
  have em: "edit_maps (u_maps self) [1, 3]
      = Inr (map (\<lambda>(key, m). (key, retarget (renumbering (set [1, 3])) m)) (u_maps self))"
    by (rule edit_maps_wf [where n = 5]) (auto dest: wf)
  show ?thesis
    unfolding add_tie_def ti sum.case srt Let_def del prod.case option.case
    using em by (cases new_name) simp_all
qed

lemma py_int_drop_slot: "py_int (drop 11 (parameter_str (int k))) = Some k"
  by (simp add: drop_parameter_str py_int_str_nat)

lemma wf_map_slot_iff [simp]: "wf_map n (slot k) = (k < n)"
  by (simp add: slot_def is_parameter_str_slot py_int_drop_slot)

lemma retarget_slot [simp]: "retarget rn (slot k) = slot (rn k)"
  by (simp add: slot_def is_parameter_str_slot py_int_drop_slot)

lemma slot_inj [simp]: "(slot a = slot b) = (a = b)"
  by (auto simp: slot_def dest: parameter_str_inj)

lemma wf_abcde: "(key, m) \<in> set (u_maps abcde) \<Longrightarrow> wf_map 5 m"
  by (auto simp: abcde_def is_parameter_str_def)

text \<open>
  C3: for a tie of a sorted set of indices, \<^verbatim>\<open>edit_map_indices\<close> sends every slot
  reference to the index that the spec's renumbering gives (a tied index to the least
  one, a lower index to itself, a higher index down by the number of removed indices
  below it), alone and under lists; and tying b and d of the slots a, b, c, d, e under
  the new name bd leaves the four slots a, bd, c, e.
\<close>

theorem tie_renumbering:
  assumes "sorted indices" "distinct indices" "indices \<noteq> []"
  shows "edit_map_indices (slot old) indices = Inr (slot (renumbering (set indices) old))
       \<and> (wf_map n m \<longrightarrow>
            edit_map_indices m indices = Inr (retarget (renumbering (set indices)) m))
       \<and> (renamed (h 1) None = renamed (h 3) None \<longrightarrow>
            fst (add_tie h [''b'', ''d''] (Some ''bd'') abcde) = None
          \<and> u_parameter_names (snd (add_tie h [''b'', ''d''] (Some ''bd'') abcde))
              = [''a'', ''bd'', ''c'', ''e'']
          \<and> length (u_parameters (snd (add_tie h [''b'', ''d''] (Some ''bd'') abcde))) = 4)"
proof (intro conjI impI)
  show "edit_map_indices (slot old) indices = Inr (slot (renumbering (set indices) old))"
    using assms by (rule edit_slot)
  show "edit_map_indices m indices = Inr (retarget (renumbering (set indices)) m)"
    if "wf_map n m" using assms that by (rule edit_wf)
  assume eq: "renamed (h 1) None = renamed (h 3) None"
  have tie: "add_tie h [''b'', ''d''] (Some ''bd'') abcde =
     (None, abcde\<lparr>u_parameters := [0, 1, 2, 4],
                   u_parameter_names := [''a'', ''bd'', ''c'', ''e''],
                   u_maps := map (\<lambda>(key, m). (key, retarget (renumbering {1, 3}) m))
                                 (u_maps abcde)\<rparr>)"
    using add_tie_1_3 [of abcde "''a''" "''b''" "''c''" "''d''" "''e''" 0 1 2 3 4 h "Some ''bd''"]
      eq wf_abcde by (simp add: abcde_def)
  show "fst (add_tie h [''b'', ''d''] (Some ''bd'') abcde) = None"
    "u_parameter_names (snd (add_tie h [''b'', ''d''] (Some ''bd'') abcde))
              = [''a'', ''bd'', ''c'', ''e'']"
    "length (u_parameters (snd (add_tie h [''b'', ''d''] (Some ''bd'') abcde))) = 4"
    unfolding tie by simp_all
qed

theorem tie_renumbering_witness:
  "sorted [1, 3 :: nat] \<and> distinct [1, 3 :: nat] \<and> [1, 3 :: nat] \<noteq> []
   \<and> edit_map_indices (slot 4) [1, 3] = Inr (slot 3)
   \<and> wf_map 5 (PList [slot 0, PNum 2, slot 3])
   \<and> edit_map_indices (PList [slot 0, PNum 2, slot 3]) [1, 3] = Inr (PList [slot 0, PNum 2, slot 1])
   \<and> renamed (same_priors 1) None = renamed (same_priors 3) None
   \<and> u_parameter_names (snd (add_tie same_priors [''b'', ''d''] (Some ''bd'') abcde))
       = [''a'', ''bd'', ''c'', ''e'']"
proof -
  have s: "sorted [1, 3 :: nat]" "distinct [1, 3 :: nat]" "[1, 3 :: nat] \<noteq> []" by simp_all
  have w: "wf_map 5 (PList [slot 0, PNum 2, slot 3])" by simp
  have e: "renamed (same_priors 1) None = renamed (same_priors 3) None"
    by (simp add: same_priors_def)
  have r: "renumbering (set [1, 3]) 4 = 3" "renumbering (set [1, 3]) 0 = 0"
    "renumbering (set [1, 3]) 3 = 1"
    using renumbering_1_3 by simp_all
  show ?thesis
    using tie_renumbering [OF s, of 4 5 "PList [slot 0, PNum 2, slot 3]" same_priors] s w e r
    by simp
qed

text \<open>
  C4, as the code has it: after tying the slots 1 and 3 of a five-slot registry, four
  slots are left, and in every owned map the references to 1 and 3 point to 1, the
  references to 0 and to 2 are unchanged, and the references to 4 point to 3.
\<close>

theorem tie_1_3_of_five:
  assumes "u_parameter_names self = [n0, n1, n2, n3, n4]" "distinct [n0, n1, n2, n3, n4]"
    and "u_parameters self = [r0, r1, r2, r3, r4]"
    and "renamed (h r1) None = renamed (h r3) None"
    and "list_all (\<lambda>(key, m). wf_map 5 m) (u_maps self)"
  shows "fst (add_tie h [n1, n3] new_name self) = None
       \<and> length (u_parameters (snd (add_tie h [n1, n3] new_name self))) = 4
       \<and> u_maps (snd (add_tie h [n1, n3] new_name self))
           = map (\<lambda>(key, m). (key, retarget (\<lambda>i. [0, 1, 2, 1, 3] ! i) m)) (u_maps self)"
proof -
  have wf: "\<And>key m. (key, m) \<in> set (u_maps self) \<Longrightarrow> wf_map 5 m"
    using assms(5) by (auto simp: list_all_iff)
  have same: "retarget (renumbering {1, 3}) m = retarget (\<lambda>i. [0, 1, 2, 1, 3] ! i) m"
    if "wf_map 5 m" for m
  proof (rule retarget_cong_wf [OF that])
    fix k :: nat assume "k < 5"
    then consider "k = 0" | "k = 1" | "k = 2" | "k = 3" | "k = 4" by linarith
    then show "renumbering {1, 3} k = [0, 1, 2, 1, 3] ! k"
      using renumbering_1_3 by cases simp_all
  qed
  have maps: "map (\<lambda>(key, m). (key, retarget (renumbering {1, 3}) m)) (u_maps self)
            = map (\<lambda>(key, m). (key, retarget (\<lambda>i. [0, 1, 2, 1, 3] ! i) m)) (u_maps self)"
  proof (rule map_cong [OF refl])
    fix x assume x: "x \<in> set (u_maps self)"
    obtain key m where km: "x = (key, m)" by (cases x)
    then have "wf_map 5 m" using x wf by blast
    then show "(case x of (key, m) \<Rightarrow> (key, retarget (renumbering {1, 3}) m))
             = (case x of (key, m) \<Rightarrow> (key, retarget (\<lambda>i. [0, 1, 2, 1, 3] ! i) m))"
      unfolding km prod.case using same by blast
  qed
  have tie: "add_tie h [n1, n3] new_name self =
     (None, self\<lparr>u_parameters := [r0, r1, r2, r4],
                   u_parameter_names := [n0, case new_name of None \<Rightarrow> n1 | Some n \<Rightarrow> n, n2, n4],
                   u_maps := map (\<lambda>(key, m). (key, retarget (renumbering {1, 3}) m)) (u_maps self)\<rparr>)"
    using assms(1-4) wf by (rule add_tie_1_3)
  show ?thesis using maps by (simp add: tie)
qed

theorem tie_1_3_of_five_witness:
  "u_parameter_names abcde = [''a'', ''b'', ''c'', ''d'', ''e'']
   \<and> distinct [''a'', ''b'', ''c'', ''d'', ''e'']
   \<and> u_parameters abcde = [0, 1, 2, 3, 4]
   \<and> renamed (same_priors 1) None = renamed (same_priors 3) None
   \<and> list_all (\<lambda>(key, m). wf_map 5 m) (u_maps abcde)
   \<and> fst (add_tie same_priors [''b'', ''d''] None abcde) = None
   \<and> length (u_parameters (snd (add_tie same_priors [''b'', ''d''] None abcde))) = 4
   \<and> map_of (u_maps (snd (add_tie same_priors [''b'', ''d''] None abcde))) ''optics''
       = Some (PList [PFunc Fdict, PList [PList
                [PList [PStr ''illum_wavelen'', slot 1], PList [PStr ''noise_sd'', slot 1]]]])"
proof -
  have a: "u_parameter_names abcde = [''a'', ''b'', ''c'', ''d'', ''e'']"
    "distinct [''a'', ''b'', ''c'', ''d'', ''e'']" "u_parameters abcde = [0, 1, 2, 3, 4]"
    by (simp_all add: abcde_def)
  have e: "renamed (same_priors 1) None = renamed (same_priors 3) None"
    by (simp add: same_priors_def)
  have w: "list_all (\<lambda>(key, m). wf_map 5 m) (u_maps abcde)"
    using wf_abcde by (auto simp: list_all_iff)
  have np: "\<not> is_parameter_str ''illum_wavelen''" "\<not> is_parameter_str ''noise_sd''"
    by (simp_all add: is_parameter_str_def)
  show ?thesis
    using tie_1_3_of_five [OF a e w, of None] a e w
    by (simp add: abcde_def np)
qed

theorem tie_1_3_of_five_counterexample:
  "edit_map_indices (slot 2) [1, 3] = Inr (slot 2) \<and> slot 2 \<noteq> slot 1"
  using edit_slot [of "[1, 3]" 2] renumbering_1_3 by simp

section \<open>What a tie checks and what it removes\<close>

lemma parameters_Some:
  assumes "length (u_parameter_names self) = length (u_parameters self)"
    and "par \<in> set (u_parameter_names self)"
  shows "\<exists>r. parameters self par = Some r"
proof -
  have "fst ` set (rev (zip (u_parameter_names self) (u_parameters self)))
        = set (map fst (zip (u_parameter_names self) (u_parameters self)))" by simp
  also have "\<dots> = set (u_parameter_names self)" using assms(1) by (simp only: map_fst_zip)
  finally have "par \<in> fst ` set (rev (zip (u_parameter_names self) (u_parameters self)))"
    using assms(2) by simp
  then have "map_of (rev (zip (u_parameter_names self) (u_parameters self))) par \<noteq> None"
    by (simp only: map_of_eq_None_iff not_not)
  then show ?thesis by (auto simp: parameters_def)
qed

lemma first_index_Some: "x \<in> set xs \<Longrightarrow> \<exists>i. first_index xs x = Some i \<and> i < length xs \<and> xs ! i = x"
  by (induction xs) auto

lemma first_index_None: "x \<notin> set xs \<Longrightarrow> first_index xs x = None"
  by (induction xs) auto

lemma tie_indices_length:
  "tie_indices h self first rest acc = Inr is \<Longrightarrow> length is = length acc + length rest"
  by (induction rest arbitrary: acc) (auto split: if_splits option.splits simp: Let_def)

lemma tie_indices_unequal:
  assumes len: "length (u_parameter_names self) = length (u_parameters self)"
    and first: "first \<in> set (u_parameter_names self)"
  shows "set rest \<subseteq> set (u_parameter_names self)
     \<Longrightarrow> \<exists>par\<in>set rest. stripped h self par \<noteq> stripped h self first
     \<Longrightarrow> tie_indices h self first rest acc = Inl ValueError_unequal"
proof (induction rest arbitrary: acc)
  case Nil
  then show ?case by simp
next
  case (Cons par rest)
  from Cons.prems have mem: "par \<in> set (u_parameter_names self)" by simp
  obtain rf where rf: "parameters self first = Some rf"
    using parameters_Some [OF len first] by blast
  obtain rp where rp: "parameters self par = Some rp"
    using parameters_Some [OF len mem] by blast
  obtain i where i: "first_index (u_parameter_names self) par = Some i"
    using first_index_Some [OF mem] by blast
  show ?case
  proof (cases "renamed (h rp) None = renamed (h rf) None")
    case True
    then have "stripped h self par = stripped h self first" by (simp add: stripped_def rf rp)
    with Cons.prems have "\<exists>p\<in>set rest. stripped h self p \<noteq> stripped h self first" by auto
    moreover have "set rest \<subseteq> set (u_parameter_names self)" using Cons.prems by simp
    ultimately have "tie_indices h self first rest (acc @ [i]) = Inl ValueError_unequal"
      by (rule Cons.IH [rotated])
    then show ?thesis using mem True by (simp add: rf rp i)
  next
    case False
    then show ?thesis using mem by (simp add: rf rp)
  qed
qed

lemma tie_indices_absent:
  assumes len: "length (u_parameter_names self) = length (u_parameters self)"
    and first: "first \<in> set (u_parameter_names self)"
    and absent: "absent \<notin> set (u_parameter_names self)"
  shows "set before \<subseteq> set (u_parameter_names self)
     \<Longrightarrow> tie_indices h self first (before @ absent # rest) acc
         = Inl (if list_all (\<lambda>p. stripped h self p = stripped h self first) before
                then ValueError_not_present else ValueError_unequal)"
proof (induction before arbitrary: acc)
  case Nil
  then show ?case using absent by simp
next
  case (Cons par before)
  from Cons.prems have mem: "par \<in> set (u_parameter_names self)" by simp
  obtain rf where rf: "parameters self first = Some rf"
    using parameters_Some [OF len first] by blast
  obtain rp where rp: "parameters self par = Some rp"
    using parameters_Some [OF len mem] by blast
  obtain i where i: "first_index (u_parameter_names self) par = Some i"
    using first_index_Some [OF mem] by blast
  have IH: "tie_indices h self first (before @ absent # rest) (acc @ [i])
         = Inl (if list_all (\<lambda>p. stripped h self p = stripped h self first) before
                then ValueError_not_present else ValueError_unequal)"
    using Cons.prems by (intro Cons.IH) simp
  show ?case
  proof (cases "renamed (h rp) None = renamed (h rf) None")
    case True
    then have "stripped h self par = stripped h self first" by (simp add: stripped_def rf rp)
    then show ?thesis using mem True IH by (simp add: rf rp i)
  next
    case False
    then have "stripped h self par \<noteq> stripped h self first" by (simp add: stripped_def rf rp)
    then show ?thesis using mem False by (simp add: rf rp)
  qed
qed

lemma length_del_at: "index < length xs \<Longrightarrow> length (del_at index xs) = length xs - 1"
  by (simp add: del_at_def)

lemma del_slots_length:
  "del_slots idxs self = (r, self') \<Longrightarrow>
     length (u_parameters self') \<le> length (u_parameters self)
   \<and> (r = None \<longrightarrow> length (u_parameters self') + length idxs = length (u_parameters self))"
proof (induction idxs arbitrary: self)
  case Nil
  then show ?case by simp
next
  case (Cons index rest)
  show ?case
  proof (cases "length (u_parameters self) \<le> index")
    case True
    with Cons.prems show ?thesis by auto
  next
    case inp: False
    show ?thesis
    proof (cases "length (u_parameter_names self) \<le> index")
      case True
      with Cons.prems inp show ?thesis by (auto simp: Let_def length_del_at)
    next
      case False
      let ?s = "self\<lparr>u_parameters := del_at index (u_parameters self),
                       u_parameter_names := del_at index (u_parameter_names self)\<rparr>"
      from Cons.prems inp False have "del_slots rest ?s = (r, self')" by (simp add: Let_def)
      from Cons.IH [OF this] inp show ?thesis by (auto simp: length_del_at)
    qed
  qed
qed

lemma slots_after_add_tie:
  "length (u_parameters (snd (add_tie h parameters_to_tie new_name self)))
     \<le> length (u_parameters self)
   \<and> (fst (add_tie h parameters_to_tie new_name self) = None \<longrightarrow> parameters_to_tie \<noteq> [] \<longrightarrow>
        length (u_parameters (snd (add_tie h parameters_to_tie new_name self)))
          + length parameters_to_tie = length (u_parameters self) + 1)"
proof (cases "tie_indices h self (hd parameters_to_tie) parameters_to_tie []")
  case (Inl e)
  then show ?thesis by (simp add: add_tie_def)
next
  case (Inr unsorted)
  then have lu: "length unsorted = length parameters_to_tie"
    by (auto dest: tie_indices_length)
  obtain r self1 where d: "del_slots (rev (tl (sort unsorted))) self = (r, self1)"
    by (cases "del_slots (rev (tl (sort unsorted))) self")
  note dl = del_slots_length [OF d]
  show ?thesis
  proof (cases r)
    case (Some e)
    then show ?thesis using Inr d dl by (simp add: add_tie_def)
  next
    case None
    with dl lu have cnt: "length (u_parameters self1) + (length parameters_to_tie - 1)
                          = length (u_parameters self)" by simp
    have "u_parameters (snd (add_tie h parameters_to_tie new_name self)) = u_parameters self1"
      using Inr d None
      by (auto simp: add_tie_def Let_def split: option.splits sum.splits)
    then show ?thesis using cnt by (cases parameters_to_tie) auto
  qed
qed

lemma abcde_len: "length (u_parameter_names abcde) = length (u_parameters abcde)"
  by (simp add: abcde_def)

lemma parameters_abcde:
  "parameters abcde ''a'' = Some 0" "parameters abcde ''b'' = Some 1"
  "parameters abcde ''c'' = Some 2" "parameters abcde ''d'' = Some 3"
  "parameters abcde ''e'' = Some 4"
  by (simp_all add: parameters_def abcde_def)

text \<open>
  C5: when every name of the list is in the registry and the Priors they refer to are
  not all equal after their names are stripped, \<^verbatim>\<open>add_tie\<close> raises the unequal-tie
  error and the model (parameters, names and maps) is as before the call.
\<close>

theorem unequal_tie_rejected:
  assumes "length (u_parameter_names self) = length (u_parameters self)"
    and "set parameters_to_tie \<subseteq> set (u_parameter_names self)"
    and "\<exists>p\<in>set parameters_to_tie. \<exists>q\<in>set parameters_to_tie.
           stripped h self p \<noteq> stripped h self q"
  shows "add_tie h parameters_to_tie new_name self = (Some ValueError_unequal, self)"
proof -
  from assms(3) have ne: "parameters_to_tie \<noteq> []" by auto
  then have "hd parameters_to_tie \<in> set parameters_to_tie" by simp
  then have first: "hd parameters_to_tie \<in> set (u_parameter_names self)" using assms(2) by blast
  have "\<exists>par\<in>set parameters_to_tie. stripped h self par \<noteq> stripped h self (hd parameters_to_tie)"
  proof (rule ccontr)
    assume "\<not> ?thesis"
    then have "\<forall>par\<in>set parameters_to_tie.
                 stripped h self par = stripped h self (hd parameters_to_tie)" by blast
    then have "\<forall>p\<in>set parameters_to_tie. \<forall>q\<in>set parameters_to_tie.
                 stripped h self p = stripped h self q" by simp
    with assms(3) show False by blast
  qed
  with assms(1) first assms(2)
  have "tie_indices h self (hd parameters_to_tie) parameters_to_tie [] = Inl ValueError_unequal"
    by (rule tie_indices_unequal)
  then show ?thesis by (simp add: add_tie_def)
qed

theorem unequal_tie_rejected_witness:
  "length (u_parameter_names abcde) = length (u_parameters abcde)
   \<and> set [''b'', ''d''] \<subseteq> set (u_parameter_names abcde)
   \<and> stripped mixed_priors abcde ''b'' \<noteq> stripped mixed_priors abcde ''d''
   \<and> add_tie mixed_priors [''b'', ''d''] (Some ''bd'') abcde = (Some ValueError_unequal, abcde)"
proof -
  have s: "set [''b'', ''d''] \<subseteq> set (u_parameter_names abcde)" by (simp add: abcde_def)
  have d: "stripped mixed_priors abcde ''b'' \<noteq> stripped mixed_priors abcde ''d''"
    by (simp add: stripped_def parameters_abcde mixed_priors_def renamed_def)
  then have e: "\<exists>p\<in>set [''b'', ''d'']. \<exists>q\<in>set [''b'', ''d''].
      stripped mixed_priors abcde p \<noteq> stripped mixed_priors abcde q" by auto
  show ?thesis
    using unequal_tie_rejected [OF abcde_len s e, of "Some ''bd''"] abcde_len s d by simp
qed

text \<open>
  C6, as the code has it: when the list holds a name that is not in the registry,
  \<^verbatim>\<open>add_tie\<close> raises and changes nothing; the error is the unknown-parameter error when
  every name before the first absent one is equal to the first name's Prior, and the
  unequal-tie error otherwise. (The empty list is not checked for.)
\<close>

theorem absent_name_rejected:
  assumes "length (u_parameter_names self) = length (u_parameters self)"
    and "parameters_to_tie = before @ absent # rest"
    and "set before \<subseteq> set (u_parameter_names self)"
    and "absent \<notin> set (u_parameter_names self)"
  shows "add_tie h parameters_to_tie new_name self
         = (Some (if list_all (\<lambda>p. stripped h self p = stripped h self (hd parameters_to_tie))
                       before
                  then ValueError_not_present else ValueError_unequal), self)"
proof (cases before)
  case Nil
  then show ?thesis using assms(2,4) by (simp add: add_tie_def)
next
  case (Cons b bs)
  then have first: "hd parameters_to_tie \<in> set (u_parameter_names self)"
    using assms(2,3) by simp
  have "tie_indices h self (hd parameters_to_tie) (before @ absent # rest) []
         = Inl (if list_all (\<lambda>p. stripped h self p = stripped h self (hd parameters_to_tie)) before
                then ValueError_not_present else ValueError_unequal)"
    using assms(1) first assms(4,3) by (rule tie_indices_absent)
  then show ?thesis unfolding assms(2) [symmetric] by (simp add: add_tie_def)
qed

theorem absent_name_rejected_witness:
  "length (u_parameter_names abcde) = length (u_parameters abcde)
   \<and> set [''b''] \<subseteq> set (u_parameter_names abcde)
   \<and> ''zzz'' \<notin> set (u_parameter_names abcde)
   \<and> add_tie same_priors [''b'', ''zzz'', ''d''] None abcde = (Some ValueError_not_present, abcde)"
proof -
  have s: "set [''b''] \<subseteq> set (u_parameter_names abcde)"
    and z: "''zzz'' \<notin> set (u_parameter_names abcde)" by (simp_all add: abcde_def)
  have l: "[''b'', ''zzz'', ''d''] = [''b''] @ ''zzz'' # [''d'']" by simp
  show ?thesis
    using absent_name_rejected [OF abcde_len l s z, of same_priors None] abcde_len s z by simp
qed

theorem absent_name_rejected_counterexample:
  "add_tie same_priors [] (Some ''z'') abcde = (Some IndexError, abcde)
   \<and> add_tie same_priors [] None abcde = (Some IndexError, abcde)
   \<and> IndexError \<noteq> ValueError_not_present"
proof -
  have np: "\<not> is_parameter_str ''r''" "\<not> is_parameter_str ''n''"
    "\<not> is_parameter_str ''center''" "\<not> is_parameter_str ''illum_wavelen''"
    "\<not> is_parameter_str ''noise_sd''"
    by (simp_all add: is_parameter_str_def)
  have es: "edit_map_indices (slot k) [] = Inl IndexError" for k
    by (simp add: slot_def is_parameter_str_slot last_piece_parameter_str py_int_str_nat)
  have "edit_maps (u_maps abcde) [] = Inl IndexError"
    by (simp add: edit_maps_def abcde_def np es)
  then show ?thesis by (simp add: add_tie_def)
qed

text \<open>
  C8, as the code has it: no call of \<^verbatim>\<open>add_tie\<close>, whether it completes or raises, leaves
  more slots than it found; a call that completes on \<open>k > 0\<close> names removes \<open>k - 1\<close>
  slots, so it leaves fewer slots exactly when it is given two names or more.
\<close>

theorem tie_slot_count:
  "length (u_parameters (snd (add_tie h parameters_to_tie new_name self)))
     \<le> length (u_parameters self)
   \<and> (fst (add_tie h parameters_to_tie new_name self) = None \<longrightarrow> parameters_to_tie \<noteq> [] \<longrightarrow>
        length (u_parameters (snd (add_tie h parameters_to_tie new_name self)))
          + length parameters_to_tie = length (u_parameters self) + 1)"
  by (rule slots_after_add_tie)


lemma add_tie_abcde_b_d:
  "add_tie same_priors [''b'', ''d''] new_name abcde =
     (None, abcde\<lparr>u_parameters := [0, 1, 2, 4],
                   u_parameter_names :=
                     [''a'', case new_name of None \<Rightarrow> ''b'' | Some n \<Rightarrow> n, ''c'', ''e''],
                   u_maps := map (\<lambda>(key, m). (key, retarget (renumbering {1, 3}) m))
                                 (u_maps abcde)\<rparr>)"
proof (rule add_tie_1_3)
  show "u_parameter_names abcde = [''a'', ''b'', ''c'', ''d'', ''e'']" by (simp add: abcde_def)
  show "distinct [''a'', ''b'', ''c'', ''d'', ''e'']" by simp
  show "u_parameters abcde = [0, 1, 2, 3, 4]" by (simp add: abcde_def)
  show "renamed (same_priors 1) None = renamed (same_priors 3) None" by (simp add: same_priors_def)
  show "\<And>key m. (key, m) \<in> set (u_maps abcde) \<Longrightarrow> wf_map 5 m" by (rule wf_abcde)
qed

theorem tie_slot_count_witness:
  "fst (add_tie same_priors [''b'', ''d''] None abcde) = None
   \<and> [''b'', ''d''] \<noteq> []
   \<and> length (u_parameters (snd (add_tie same_priors [''b'', ''d''] None abcde))) = 4
   \<and> length (u_parameters abcde) = 5"
  using tie_slot_count [of same_priors "[''b'', ''d'']" None abcde]
  by (simp add: add_tie_abcde_b_d)

theorem tie_slot_count_counterexample:
  "fst (add_tie same_priors [''a''] None abcde) = None
   \<and> length (u_parameters (snd (add_tie same_priors [''a''] None abcde)))
       = length (u_parameters abcde)"
proof -
  have ti: "tie_indices same_priors abcde ''a'' [''a''] [] = Inr [0]"
    by (simp add: parameters_abcde) (simp add: abcde_def)
  have em: "edit_maps (u_maps abcde) [0]
      = Inr (map (\<lambda>(key, m). (key, retarget (renumbering (set [0])) m)) (u_maps abcde))"
    by (rule edit_maps_wf [where n = 5]) (auto dest: wf_abcde)
  show ?thesis by (simp add: add_tie_def ti em del: tie_indices.simps)
qed

text \<open>
  C7 at the failing input: tying b and d of the slots a, b, c, d, e under the new name
  a completes, and leaves the names a, a, c, e.
\<close>

theorem tie_new_name_collides:
  "fst (add_tie same_priors [''b'', ''d''] (Some ''a'') abcde) = None
   \<and> u_parameter_names (snd (add_tie same_priors [''b'', ''d''] (Some ''a'') abcde))
       = [''a'', ''a'', ''c'', ''e'']
   \<and> \<not> distinct (u_parameter_names (snd (add_tie same_priors [''b'', ''d''] (Some ''a'') abcde)))"
  by (simp add: add_tie_abcde_b_d)

section \<open>Registration\<close>

declare unique_name.simps [simp del]

lemma str_nat_0: "str_nat 0 = ''0''"
  by code_simp

lemma str_nat_1: "str_nat 1 = ''1''"
  by code_simp

lemma numbered_0: "numbered b 0 = b @ ''_0''"
  by (simp add: numbered_def str_nat_0)

lemma unique_name_fresh: "name \<notin> set names \<Longrightarrow> unique_name names name = Inr name"
  by (simp add: unique_name.simps)

lemma unique_name_numbered:
  "\<exists>b c. name = numbered b c \<Longrightarrow>
     \<exists>name3. unique_name names name = Inr name3 \<and> name3 \<notin> set names"
proof (induction names name rule: unique_name.induct)
  case (1 names name)
  then obtain b c where bc: "name = numbered b c" by blast
  show ?case
  proof (cases "name \<in> set names")
    case False
    then show ?thesis by (simp add: unique_name_fresh)
  next
    case True
    have bump: "bump_name name = Inr (numbered b (c + 1))"
      unfolding bc by (rule bump_name_numbered)
    have "\<exists>name3. unique_name names (numbered b (c + 1)) = Inr name3 \<and> name3 \<notin> set names"
      using "1.IH" [OF True bump] by blast
    then show ?thesis using True bump by (subst unique_name.simps) simp
  qed
qed

lemma check_for_ties_new:
  assumes "parameter \<notin> set (u_parameters self)"
  shows "\<exists>name3. name3 \<notin> set (u_parameter_names self) \<and>
     check_for_ties h parameter name self
       = Inr (length (u_parameters self),
              self\<lparr>u_parameters := u_parameters self @ [parameter],
                    u_parameter_names := u_parameter_names self @ [name3]\<rparr>)"
proof -
  let ?name1 = "case pname (h parameter) of Some n \<Rightarrow> n | None \<Rightarrow> name"
  let ?name2 = "if ?name1 \<in> set (u_parameter_names self) then ?name1 @ ''_0'' else ?name1"
  have "\<exists>name3. unique_name (u_parameter_names self) ?name2 = Inr name3
          \<and> name3 \<notin> set (u_parameter_names self)"
  proof (cases "?name1 \<in> set (u_parameter_names self)")
    case True
    then have "?name2 = numbered ?name1 0" by (simp add: numbered_0)
    then have "\<exists>b c. ?name2 = numbered b c" by blast
    then show ?thesis by (rule unique_name_numbered)
  next
    case False
    then show ?thesis by (simp add: unique_name_fresh)
  qed
  then obtain name3 where n3: "unique_name (u_parameter_names self) ?name2 = Inr name3"
    "name3 \<notin> set (u_parameter_names self)" by blast
  have fi: "first_index (u_parameters self) parameter = None"
    using assms by (rule first_index_None)
  show ?thesis
    using n3 by (intro exI [of _ name3]) (simp add: check_for_ties_def fi Let_def)
qed

lemma first_index_first:
  "first_index xs x = Some i \<Longrightarrow> i < length xs \<and> xs ! i = x \<and> (\<forall>j<i. xs ! j \<noteq> x)"
proof (induction xs arbitrary: i)
  case Nil
  then show ?case by simp
next
  case (Cons y ys)
  show ?case
  proof (cases "y = x")
    case True
    with Cons.prems show ?thesis by simp
  next
    case False
    with Cons.prems obtain k where k: "first_index ys x = Some k" "i = Suc k" by auto
    from Cons.IH [OF k(1)] have ih: "k < length ys" "ys ! k = x" "\<forall>j<k. ys ! j \<noteq> x" by auto
    show ?thesis unfolding k(2) using ih False by (auto simp: less_Suc_eq_0_disj)
  qed
qed

lemma check_for_ties_old:
  assumes "length (u_parameter_names self) = length (u_parameters self)"
    and "first_index (u_parameters self) parameter = Some index"
  shows "\<exists>names'. check_for_ties h parameter name self
           = Inr (index, self\<lparr>u_parameter_names := names'\<rparr>)
         \<and> length names' = length (u_parameter_names self)"
proof -
  have lt: "index < length (u_parameter_names self)"
    using first_index_first [OF assms(2)] assms(1) by simp
  show ?thesis
  proof (cases "after_colon (u_parameter_names self ! index) \<notin> set (u_parameter_names self)")
    case True
    then show ?thesis using lt assms(2)
      by (intro exI [of _ "(u_parameter_names self)[index := after_colon (u_parameter_names self ! index)]"])
         (simp add: check_for_ties_def Let_def)
  next
    case False
    then show ?thesis using lt assms(2)
      by (intro exI [of _ "u_parameter_names self"]) (simp add: check_for_ties_def Let_def)
  qed
qed


lemma first_index_append: "first_index xs x = Some i \<Longrightarrow> first_index (xs @ ys) x = Some i"
  by (induction xs arbitrary: i) auto

lemma first_index_snoc: "x \<notin> set xs \<Longrightarrow> first_index (xs @ [x]) x = Some (length xs)"
  by (induction xs) auto

lemma first_index_cases:
  obtains "x \<notin> set xs" "first_index xs x = None"
  | i where "first_index xs x = Some i"
proof (cases "first_index xs x")
  case None
  moreover have "x \<notin> set xs"
  proof
    assume "x \<in> set xs"
    then show False using None by (induction xs) (auto split: if_splits)
  qed
  ultimately show ?thesis by (rule that(1) [rotated])
next
  case (Some i)
  then show ?thesis by (rule that(2))
qed

lemma check_for_ties_result:
  assumes len: "length (u_parameter_names self) = length (u_parameters self)"
  shows "\<exists>index self'. check_for_ties h r name self = Inr (index, self')
     \<and> length (u_parameter_names self') = length (u_parameters self')
     \<and> first_index (u_parameters self') r = Some index
     \<and> u_maps self' = u_maps self
     \<and> (first_index (u_parameters self) r = Some index \<and> u_parameters self' = u_parameters self
        \<or> r \<notin> set (u_parameters self) \<and> u_parameters self' = u_parameters self @ [r])"
proof (cases rule: first_index_cases [of r "u_parameters self"])
  case 1
  from check_for_ties_new [OF 1(1), of h name] obtain name3 where
    c: "check_for_ties h r name self
       = Inr (length (u_parameters self),
              self\<lparr>u_parameters := u_parameters self @ [r],
                    u_parameter_names := u_parameter_names self @ [name3]\<rparr>)" by blast
  show ?thesis unfolding c using 1 len by (simp add: first_index_snoc)
next
  case (2 i)
  from check_for_ties_old [OF len 2, of h name] obtain names' where
    c: "check_for_ties h r name self = Inr (i, self\<lparr>u_parameter_names := names'\<rparr>)"
    and l: "length names' = length (u_parameter_names self)" by blast
  show ?thesis unfolding c using 2 len l by simp
qed

text \<open>
  C2: registration goes by the identity of the object. Two Prior objects at different
  addresses get different slot indices, whatever their values (so also when the values
  are identical), and the same object met again gets the index it has, with no slot
  added.
\<close>

theorem registration_by_identity:
  assumes "length (u_parameter_names self) = length (u_parameters self)" and "r1 \<noteq> r2"
  shows "\<exists>i1 s1 i2 s2 s3.
           check_for_ties h r1 n1 self = Inr (i1, s1)
         \<and> check_for_ties h r2 n2 s1 = Inr (i2, s2)
         \<and> i1 \<noteq> i2
         \<and> check_for_ties h r1 n3 s2 = Inr (i1, s3)
         \<and> u_parameters s3 = u_parameters s2"
proof -
  from check_for_ties_result [OF assms(1), of h r1 n1] obtain i1 s1 where
    c1: "check_for_ties h r1 n1 self = Inr (i1, s1)"
    and l1: "length (u_parameter_names s1) = length (u_parameters s1)"
    and f1: "first_index (u_parameters s1) r1 = Some i1" by blast
  from check_for_ties_result [OF l1, of h r2 n2] obtain i2 s2 where
    c2: "check_for_ties h r2 n2 s1 = Inr (i2, s2)"
    and l2: "length (u_parameter_names s2) = length (u_parameters s2)"
    and f2: "first_index (u_parameters s2) r2 = Some i2"
    and p2: "u_parameters s2 = u_parameters s1 \<or> u_parameters s2 = u_parameters s1 @ [r2]"
    by blast
  have f1': "first_index (u_parameters s2) r1 = Some i1"
    using p2 f1 by (auto intro: first_index_append)
  have "u_parameters s2 ! i1 = r1" "u_parameters s2 ! i2 = r2"
    using first_index_first [OF f1'] first_index_first [OF f2] by simp_all
  with assms(2) have ne: "i1 \<noteq> i2" by auto
  from check_for_ties_result [OF l2, of h r1 n3] obtain i3 s3 where
    c3: "check_for_ties h r1 n3 s2 = Inr (i3, s3)"
    and p3: "first_index (u_parameters s2) r1 = Some i3 \<and> u_parameters s3 = u_parameters s2
        \<or> r1 \<notin> set (u_parameters s2) \<and> u_parameters s3 = u_parameters s2 @ [r1]"
    by blast
  have "r1 \<in> set (u_parameters s2)"
    using first_index_first [OF f1'] by (metis nth_mem)
  with p3 f1' have "i3 = i1" "u_parameters s3 = u_parameters s2" by auto
  with c1 c2 ne c3 show ?thesis by blast
qed

theorem registration_by_identity_witness:
  "length (u_parameter_names empty_model) = length (u_parameters empty_model)
   \<and> (0 :: ref) \<noteq> 1 \<and> same_priors 0 = same_priors 1
   \<and> (\<exists>i1 s1 i2 s2 s3.
           check_for_ties same_priors 0 ''x'' empty_model = Inr (i1, s1)
         \<and> check_for_ties same_priors 1 ''y'' s1 = Inr (i2, s2)
         \<and> i1 \<noteq> i2
         \<and> check_for_ties same_priors 0 ''z'' s2 = Inr (i1, s3)
         \<and> u_parameters s3 = u_parameters s2)"
proof -
  have l: "length (u_parameter_names empty_model) = length (u_parameters empty_model)"
    by (simp add: empty_model_def)
  have n: "(0 :: ref) \<noteq> 1" by simp
  show ?thesis
    using registration_by_identity [OF l n, of same_priors "''x''" "''y''" "''z''"] l
    by (simp add: same_priors_def)
qed

lemma check_for_ties_unnamed:
  assumes "r \<notin> set (u_parameters self)" "pname (h r) = None"
    and "unique_name (u_parameter_names self)
           (if name \<in> set (u_parameter_names self) then name @ ''_0'' else name) = Inr name3"
  shows "check_for_ties h r name self
       = Inr (length (u_parameters self),
              self\<lparr>u_parameters := u_parameters self @ [r],
                    u_parameter_names := u_parameter_names self @ [name3]\<rparr>)"
  using assms by (simp add: check_for_ties_def first_index_None Let_def)

text \<open>
  C9: three unnamed Variables registered one after the other under the suggested name
  x, in a registry that has none of the names x, x_0 and x_1 yet, are stored under the
  names x, x_0 and x_1, in this order.
\<close>

theorem three_unnamed_under_x:
  assumes "pname (h r1) = None" "pname (h r2) = None" "pname (h r3) = None"
    and "distinct [r1, r2, r3]"
    and "set [r1, r2, r3] \<inter> set (u_parameters self) = {}"
    and "set [''x'', ''x_0'', ''x_1''] \<inter> set (u_parameter_names self) = {}"
  shows "check_for_ties h r1 ''x'' self
           = Inr (length (u_parameters self),
                  self\<lparr>u_parameters := u_parameters self @ [r1],
                        u_parameter_names := u_parameter_names self @ [''x'']\<rparr>)
       \<and> check_for_ties h r2 ''x''
            (self\<lparr>u_parameters := u_parameters self @ [r1],
                  u_parameter_names := u_parameter_names self @ [''x'']\<rparr>)
           = Inr (length (u_parameters self) + 1,
                  self\<lparr>u_parameters := u_parameters self @ [r1, r2],
                        u_parameter_names := u_parameter_names self @ [''x'', ''x_0'']\<rparr>)
       \<and> check_for_ties h r3 ''x''
            (self\<lparr>u_parameters := u_parameters self @ [r1, r2],
                  u_parameter_names := u_parameter_names self @ [''x'', ''x_0'']\<rparr>)
           = Inr (length (u_parameters self) + 2,
                  self\<lparr>u_parameters := u_parameters self @ [r1, r2, r3],
                        u_parameter_names := u_parameter_names self @ [''x'', ''x_0'', ''x_1'']\<rparr>)"
proof (intro conjI)
  let ?ns = "u_parameter_names self"
  have fresh: "''x'' \<notin> set ?ns" "''x_0'' \<notin> set ?ns" "''x_1'' \<notin> set ?ns"
    using assms(6) by auto
  have u1: "unique_name ?ns (if ''x'' \<in> set ?ns then ''x'' @ ''_0'' else ''x'') = Inr ''x''"
    using fresh by (simp add: unique_name_fresh)
  show "check_for_ties h r1 ''x'' self
           = Inr (length (u_parameters self),
                  self\<lparr>u_parameters := u_parameters self @ [r1],
                        u_parameter_names := ?ns @ [''x'']\<rparr>)"
    using assms(5) assms(1) u1 by (intro check_for_ties_unnamed) auto
  have u2: "unique_name (?ns @ [''x''])
              (if ''x'' \<in> set (?ns @ [''x'']) then ''x'' @ ''_0'' else ''x'') = Inr ''x_0''"
    using fresh by (simp add: unique_name_fresh)
  have "check_for_ties h r2 ''x''
            (self\<lparr>u_parameters := u_parameters self @ [r1], u_parameter_names := ?ns @ [''x'']\<rparr>)
           = Inr (length (u_parameters self @ [r1]),
                  self\<lparr>u_parameters := (u_parameters self @ [r1]) @ [r2],
                        u_parameter_names := (?ns @ [''x'']) @ [''x_0'']\<rparr>)"
    using check_for_ties_unnamed [of r2
        "self\<lparr>u_parameters := u_parameters self @ [r1], u_parameter_names := ?ns @ [''x'']\<rparr>"
        h "''x''" "''x_0''"] assms(2,4,5) u2
    by simp
  then show "check_for_ties h r2 ''x''
            (self\<lparr>u_parameters := u_parameters self @ [r1], u_parameter_names := ?ns @ [''x'']\<rparr>)
           = Inr (length (u_parameters self) + 1,
                  self\<lparr>u_parameters := u_parameters self @ [r1, r2],
                        u_parameter_names := ?ns @ [''x'', ''x_0'']\<rparr>)"
    by simp
  have x0: "''x_0'' = numbered ''x'' 0" and x1: "''x_1'' = numbered ''x'' (0 + 1)"
    using str_nat_0 str_nat_1 by (simp_all add: numbered_def)
  have bump: "bump_name ''x_0'' = Inr ''x_1''"
    unfolding x0 x1 by (rule bump_name_numbered)
  have "unique_name (?ns @ [''x'', ''x_0'']) ''x_0'' = unique_name (?ns @ [''x'', ''x_0'']) ''x_1''"
    by (subst unique_name.simps) (simp add: bump)
  also have "\<dots> = Inr ''x_1''" using fresh by (simp add: unique_name_fresh)
  finally have u3: "unique_name (?ns @ [''x'', ''x_0''])
              (if ''x'' \<in> set (?ns @ [''x'', ''x_0'']) then ''x'' @ ''_0'' else ''x'') = Inr ''x_1''"
    by simp
  have "check_for_ties h r3 ''x''
            (self\<lparr>u_parameters := u_parameters self @ [r1, r2],
                  u_parameter_names := ?ns @ [''x'', ''x_0'']\<rparr>)
           = Inr (length (u_parameters self @ [r1, r2]),
                  self\<lparr>u_parameters := (u_parameters self @ [r1, r2]) @ [r3],
                        u_parameter_names := (?ns @ [''x'', ''x_0'']) @ [''x_1'']\<rparr>)"
    using check_for_ties_unnamed [of r3
        "self\<lparr>u_parameters := u_parameters self @ [r1, r2],
              u_parameter_names := ?ns @ [''x'', ''x_0'']\<rparr>"
        h "''x''" "''x_1''"] assms(3,4,5) u3
    by simp
  then show "check_for_ties h r3 ''x''
            (self\<lparr>u_parameters := u_parameters self @ [r1, r2],
                  u_parameter_names := ?ns @ [''x'', ''x_0'']\<rparr>)
           = Inr (length (u_parameters self) + 2,
                  self\<lparr>u_parameters := u_parameters self @ [r1, r2, r3],
                        u_parameter_names := ?ns @ [''x'', ''x_0'', ''x_1'']\<rparr>)"
    by simp
qed

theorem three_unnamed_under_x_witness:
  "pname (same_priors 0) = None \<and> pname (same_priors 1) = None \<and> pname (same_priors 2) = None
   \<and> distinct [0 :: ref, 1, 2]
   \<and> set [0 :: ref, 1, 2] \<inter> set (u_parameters empty_model) = {}
   \<and> set [''x'', ''x_0'', ''x_1''] \<inter> set (u_parameter_names empty_model) = {}
   \<and> check_for_ties same_priors 2 ''x''
        \<lparr>u_parameters = [0, 1], u_parameter_names = [''x'', ''x_0''], u_maps = []\<rparr>
       = Inr (2, \<lparr>u_parameters = [0, 1, 2], u_parameter_names = [''x'', ''x_0'', ''x_1''],
                  u_maps = []\<rparr>)"
proof -
  have p: "pname (same_priors 0) = None" "pname (same_priors 1) = None"
    "pname (same_priors 2) = None" by (simp_all add: same_priors_def)
  have d: "distinct [0 :: ref, 1, 2]" by simp
  have e: "set [0 :: ref, 1, 2] \<inter> set (u_parameters empty_model) = {}"
    "set [''x'', ''x_0'', ''x_1''] \<inter> set (u_parameter_names empty_model) = {}"
    by (simp_all add: empty_model_def)
  show ?thesis
    using three_unnamed_under_x [OF p d e] p d e by (simp add: empty_model_def)
qed

section \<open>Constants\<close>

text \<open>
  C10, as the code has it: a value that the builder classifies as a fixed leaf is its
  own map, and is read back verbatim from every vector of values, unless it is a string
  that begins with \<^verbatim>\<open>_parameter_\<close>.
\<close>

theorem constant_read_verbatim:
  assumes "constant_leaf v" and "plain_leaf v"
  shows "convert_to_map h v name self = Inr (v, self) \<and> read_map v parameter_values = Inr v"
  using assms by (cases v) simp_all

theorem constant_read_verbatim_witness:
  "constant_leaf (PStr ''auto'') \<and> plain_leaf (PStr ''auto'')
   \<and> convert_to_map same_priors (PStr ''auto'') ''theory'' empty_model = Inr (PStr ''auto'', empty_model)
   \<and> read_map (PStr ''auto'') [PNum 5] = Inr (PStr ''auto'')"
proof -
  have c: "constant_leaf (PStr ''auto'')" by simp
  have p: "plain_leaf (PStr ''auto'')" by (simp add: is_parameter_str_def)
  show ?thesis
    using constant_read_verbatim [OF c p, of same_priors "''theory''" empty_model "[PNum 5]"] c p
    by simp
qed

theorem constant_read_verbatim_counterexample:
  "constant_leaf (PStr ''_parameter_0'')
   \<and> convert_to_map same_priors (PStr ''_parameter_0'') ''name'' empty_model
       = Inr (PStr ''_parameter_0'', empty_model)
   \<and> read_map (PStr ''_parameter_0'') [PNum 5] = Inr (PNum 5)
   \<and> PNum 5 \<noteq> PStr ''_parameter_0''"
proof -
  have "py_int ''0'' = Some 0" using py_int_str_nat [of 0] by (simp add: str_nat_0)
  then show ?thesis by (simp add: is_parameter_str_def)
qed

section \<open>The round trip\<close>

lemma grows_refl: "length (u_parameter_names self) = length (u_parameters self) \<Longrightarrow> grows self self"
  by (simp add: grows_def)

lemma grows_trans: "grows a b \<Longrightarrow> grows b c \<Longrightarrow> grows a c"
  by (auto simp: grows_def)

lemma initial_guess_grows:
  "grows self self' \<Longrightarrow> \<exists>more. initial_guess h self' = initial_guess h self @ more"
  by (auto simp: grows_def initial_guess_def)

lemma reads_as_grows: "grows self self' \<Longrightarrow> reads_as h self m v \<Longrightarrow> reads_as h self' m v"
proof -
  assume g: "grows self self'" and r: "reads_as h self m v"
  from initial_guess_grows [OF g, of h] obtain more where
    m: "initial_guess h self' = initial_guess h self @ more" by blast
  show ?thesis using r unfolding reads_as_def m by simp
qed

lemma stored_call_no_func: "(\<forall>m\<in>set ms. \<forall>f. m \<noteq> PFunc f) \<Longrightarrow> stored_call ms = None"
  by (auto simp: stored_call_def split: list.splits pyval.splits)

lemma stored_call_PStr: "stored_call (PStr s # ms) = None"
  by (auto simp: stored_call_def split: list.splits)

lemma stored_call_PList: "stored_call (PList xs # ms) = None"
  by (auto simp: stored_call_def split: list.splits)

lemma stored_call_PFunc: "stored_call [PFunc f, args] = Some (f, args)"
  by (simp add: stored_call_def)

lemma collect_list_all2:
  "list_all2 (\<lambda>x y. f x = Inr y) xs ys \<Longrightarrow> collect (map f xs) = Inr ys"
  by (induction xs ys rule: list_all2_induct) auto


lemma iterate_reads:
  assumes IH: "\<And>k v name self. (k, v) \<in> set pairs \<Longrightarrow> supported v
      \<Longrightarrow> length (u_parameter_names self) = length (u_parameters self)
      \<Longrightarrow> \<exists>M self'. convert_to_map h v name self = Inr (M, self')
            \<and> grows self self' \<and> reads_as h self' M v"
  shows "list_all (\<lambda>(k, v). supported v) pairs
     \<Longrightarrow> length (u_parameter_names self) = length (u_parameters self)
     \<Longrightarrow> \<exists>Ms self'. iterate_mapping h prefix pairs self = Inr (Ms, self')
            \<and> grows self self' \<and> list_all2 (\<lambda>m (k, v). reads_as h self' m v) Ms pairs"
  using IH
proof (induction pairs arbitrary: self)
  case Nil
  then show ?case by (simp add: grows_refl)
next
  case (Cons kv rest)
  obtain k v where kv: "kv = (k, v)" by (cases kv)
  have sup: "supported v" and sups: "list_all (\<lambda>(k, v). supported v) rest"
    using Cons.prems(1) by (simp_all add: kv)
  from Cons.prems(3) [of k v self "prefix @ k"] sup Cons.prems(2) obtain M s1 where
    c: "convert_to_map h v (prefix @ k) self = Inr (M, s1)"
    and g1: "grows self s1" and r1: "reads_as h s1 M v"
    by (auto simp: kv)
  have l1: "length (u_parameter_names s1) = length (u_parameters s1)"
    using g1 by (simp add: grows_def)
  have "\<exists>Ms self'. iterate_mapping h prefix rest s1 = Inr (Ms, self')
            \<and> grows s1 self' \<and> list_all2 (\<lambda>m (k, v). reads_as h self' m v) Ms rest"
    using sups l1
  proof (rule Cons.IH)
    fix k' v' name' and self' :: model
    assume "(k', v') \<in> set rest" "supported v'"
      "length (u_parameter_names self') = length (u_parameters self')"
    then show "\<exists>M self''. convert_to_map h v' name' self' = Inr (M, self'')
            \<and> grows self' self'' \<and> reads_as h self'' M v'"
      using Cons.prems(3) [of k' v' self' name'] by simp
  qed
  then obtain Ms s2 where
    i: "iterate_mapping h prefix rest s1 = Inr (Ms, s2)"
    and g2: "grows s1 s2" and r2: "list_all2 (\<lambda>m (k, v). reads_as h s2 m v) Ms rest"
    by blast
  have "iterate_mapping h prefix (kv # rest) self = Inr (M # Ms, s2)"
    by (simp add: kv c i)
  moreover have "grows self s2" using g1 g2 by (rule grows_trans)
  moreover have "reads_as h s2 M v" using g2 r1 by (rule reads_as_grows)
  ultimately show ?case using r2 by (auto simp: kv)
qed

lemma reads_collect:
  "list_all2 (\<lambda>m (k, v). reads_as h s m v) Ms pairs \<Longrightarrow>
     collect (map (\<lambda>m. read_map m (initial_guess h s @ later)) Ms)
       = Inr (map (\<lambda>(k, v). guess_config h v) pairs)"
  by (induction Ms pairs rule: list_all2_induct) (auto simp: reads_as_def)

lemma reads_no_func:
  "list_all2 (\<lambda>m (k, v). reads_as h s m v) Ms pairs \<Longrightarrow> \<forall>m\<in>set Ms. \<forall>f. m \<noteq> PFunc f"
  by (induction Ms pairs rule: list_all2_induct) (auto simp: reads_as_def)

lemma read_list_of_maps:
  assumes "list_all2 (\<lambda>m (k, v). reads_as h s m v) Ms pairs"
  shows "read_map (PList Ms) (initial_guess h s @ later)
         = Inr (PList (map (\<lambda>(k, v). guess_config h v) pairs))"
  using stored_call_no_func [OF reads_no_func [OF assms]] reads_collect [OF assms, of later]
  by simp

lemma map_snd_enumerate: "map (\<lambda>(k, v). f v) (enumerate_str xs) = map f xs"
proof -
  have "map (\<lambda>(k, v). f v) (enumerate_str xs) = map f (map snd (enumerate_str xs))"
    by (simp add: case_prod_unfold comp_def)
  also have "map snd (enumerate_str xs) = xs" by (simp add: enumerate_str_def)
  finally show ?thesis .
qed

lemma map_snd_zip: "length ks = length vs \<Longrightarrow> map (\<lambda>(k, v). f v) (zip ks vs) = map f vs"
proof -
  assume l: "length ks = length vs"
  have "map (\<lambda>(k, v). f v) (zip ks vs) = map f (map snd (zip ks vs))"
    by (simp add: case_prod_unfold comp_def)
  also have "map snd (zip ks vs) = vs" using l by simp
  finally show ?thesis .
qed

lemma supported_zip: "list_all supported vs \<Longrightarrow> list_all (\<lambda>(k, v). supported v) (zip ks vs)"
  by (auto simp: list_all_iff dest: set_zip_rightD)

lemma update_fresh: "k \<notin> fst ` set al \<Longrightarrow> AList.update k v al = al @ [(k, v)]"
  by (induction al) auto

lemma foldl_update_distinct:
  "distinct (map fst (acc @ kvs)) \<Longrightarrow>
     foldl (\<lambda>d (k, v). AList.update k v d) acc kvs = acc @ kvs"
proof (induction kvs arbitrary: acc)
  case Nil
  then show ?case by simp
next
  case (Cons kv kvs)
  obtain k v where kv: "kv = (k, v)" by (cases kv)
  have fresh: "k \<notin> fst ` set acc" using Cons.prems by (auto simp: kv)
  have "distinct (map fst ((acc @ [(k, v)]) @ kvs))" using Cons.prems by (simp add: kv)
  from Cons.IH [OF this] show ?case by (simp add: kv update_fresh [OF fresh])
qed

lemma dict_of_pairs_distinct: "distinct (map fst kvs) \<Longrightarrow> dict_of_pairs kvs = kvs"
  using foldl_update_distinct [of "[]" kvs] by (simp add: dict_of_pairs_def)

lemma pair_of_item: "pair_of (PList [PStr k, x]) = Inr (k, x)"
  by (simp add: pair_of_def)

lemma collect_pair_of:
  "collect (map pair_of (map (\<lambda>(k, v). PList [PStr k, f v]) kvs)) = Inr (map (\<lambda>(k, v). (k, f v)) kvs)"
  by (induction kvs) (auto simp: pair_of_item)

lemma dict_args_Nil: "dict_args [] ms = []" "dict_args ks [] = []"
  by (simp_all add: dict_args_def)

lemma dict_args_Cons:
  "dict_args (k # ks) (m # ms)
     = (if m \<noteq> PNone then PList [PStr k, m] # dict_args ks ms else dict_args ks ms)"
  by (simp add: dict_args_def)

lemma stored_call_dict_args: "stored_call (dict_args ks ms) = None"
  by (rule stored_call_no_func) (auto simp: dict_args_def)

lemma read_plain_str: "\<not> is_parameter_str s \<Longrightarrow> read_map (PStr s) pv = Inr (PStr s)"
  by simp

lemma read_dict_args:
  assumes "list_all2 (\<lambda>m (k, v). reads_as h s m v) Ms kvs"
    and "list_all (\<lambda>(k, v). \<not> is_parameter_str k) kvs"
  shows "collect (map (\<lambda>item. read_map item (initial_guess h s @ later))
                      (dict_args (map fst kvs) Ms))
         = Inr (map (\<lambda>(k, v). PList [PStr k, guess_config h v])
                    (filter (\<lambda>(k, v). v \<noteq> PNone) kvs))"
  using assms
proof (induction Ms kvs rule: list_all2_induct)
  case Nil
  then show ?case by (simp add: dict_args_Nil)
next
  case (Cons m Ms kv kvs)
  obtain k v where kv: "kv = (k, v)" by (cases kv)
  from Cons.hyps(1) have r: "reads_as h s m v" by (simp add: kv)
  then have rd: "read_map m (initial_guess h s @ later) = Inr (guess_config h v)"
    and none: "(m = PNone) = (v = PNone)" by (simp_all add: reads_as_def)
  from Cons.prems have key: "\<not> is_parameter_str k"
    and keys: "list_all (\<lambda>(k, v). \<not> is_parameter_str k) kvs" by (simp_all add: kv)
  note IH = Cons.IH [OF keys]
  have item: "read_map (PList [PStr k, m]) (initial_guess h s @ later)
              = Inr (PList [PStr k, guess_config h v])"
    using key rd by (simp add: stored_call_PStr)
  show ?case
  proof (cases "v = PNone")
    case True
    then show ?thesis using none IH by (simp add: kv dict_args_Cons)
  next
    case False
    then have "m \<noteq> PNone" using none by simp
    then show ?thesis using False IH item by (simp add: kv dict_args_Cons del: read_map.simps)
  qed
qed

lemma read_call:
  "read_map (PList [PFunc f, PList args]) pv
   = (case collect (map (\<lambda>arg. read_map arg pv) args) of
        Inl e \<Rightarrow> Inl e
      | Inr vals \<Rightarrow> apply_callable f vals)"
  by (simp add: stored_call_PFunc)

lemma read_dict:
  assumes "list_all2 (\<lambda>m (k, v). reads_as h s m v) Ms kvs"
    and "list_all (\<lambda>(k, v). \<not> is_parameter_str k) kvs"
    and "distinct (map fst kvs)"
  shows "read_map (PList [PFunc Fdict, PList [PList (dict_args (map fst kvs) Ms)]])
                  (initial_guess h s @ later)
         = Inr (guess_config h (PDict kvs))"
proof -
  let ?fl = "filter (\<lambda>(k, v). v \<noteq> PNone) kvs"
  let ?items = "map (\<lambda>(k, v). PList [PStr k, guess_config h v]) ?fl"
  have inner: "read_map (PList (dict_args (map fst kvs) Ms)) (initial_guess h s @ later)
               = Inr (PList ?items)"
    using read_dict_args [OF assms(1,2), of later] by (simp add: stored_call_dict_args)
  have d: "distinct (map fst (map (\<lambda>(k, v). (k, guess_config h v)) ?fl))"
  proof -
    have e: "map fst (map (\<lambda>(k, v). (k, guess_config h v)) ?fl) = map fst ?fl"
      by (simp add: case_prod_unfold comp_def)
    show ?thesis unfolding e using assms(3) by (rule distinct_map_filter)
  qed
  have "read_map (PList [PFunc Fdict, PList [PList (dict_args (map fst kvs) Ms)]])
                  (initial_guess h s @ later)
        = py_dict (PList ?items)"
    by (simp add: read_call inner del: read_map.simps(2))
  also have "\<dots> = Inr (PDict (dict_of_pairs (map (\<lambda>(k, v). (k, guess_config h v)) ?fl)))"
    by (simp add: py_dict_def collect_pair_of del: map_map)
  also have "\<dots> = Inr (guess_config h (PDict kvs))"
    by (simp add: dict_of_pairs_distinct [OF d])
  finally show ?thesis .
qed

lemma collect_read_labels:
  "list_all (\<lambda>k. \<not> is_parameter_str k) ks \<Longrightarrow>
     collect (map (\<lambda>item. read_map item pv) (map PStr ks)) = Inr (map PStr ks)"
  by (induction ks) auto

lemma stored_call_labels: "stored_call (map PStr ks) = None"
  by (rule stored_call_no_func) auto

lemma read_labels:
  "list_all (\<lambda>k. \<not> is_parameter_str k) ks \<Longrightarrow>
     read_map (PList (map PStr ks)) pv = Inr (PList (map PStr ks))"
  by (simp add: stored_call_labels collect_read_labels del: map_map)

lemma collect_str_of: "collect (map str_of (map PStr ks)) = Inr ks"
  by (induction ks) auto

lemma read_xarray:
  assumes "list_all2 (\<lambda>m (k, v). reads_as h s m v) Ms (zip ks vs)"
    and "\<not> is_parameter_str d" "list_all (\<lambda>k. \<not> is_parameter_str k) ks"
    and "vs \<noteq> []" "length ks = length vs"
  shows "read_map (PList [PFunc Fmake_xarray, PList [PStr d, PList (map PStr ks), PList Ms]])
                  (initial_guess h s @ later)
         = Inr (guess_config h (PXarray d ks vs))"
proof -
  let ?pv = "initial_guess h s @ later"
  have vals: "read_map (PList Ms) ?pv = Inr (PList (map (guess_config h) vs))"
    using read_list_of_maps [OF assms(1), of later] assms(5) by (simp add: map_snd_zip)
  have labels: "read_map (PList (map PStr ks)) ?pv = Inr (PList (map PStr ks))"
    using assms(3) by (rule read_labels)
  have dim: "read_map (PStr d) ?pv = Inr (PStr d)" using assms(2) by simp
  have "read_map (PList [PFunc Fmake_xarray, PList [PStr d, PList (map PStr ks), PList Ms]]) ?pv
        = make_xarray (PStr d) (PList (map PStr ks)) (PList (map (guess_config h) vs))"
    by (simp add: read_call vals labels dim del: read_map.simps)
  also have "\<dots> = Inr (PXarray d ks (map (guess_config h) vs))"
    using assms(4,5) by (simp add: make_xarray_def collect_str_of del: map_map)
  finally show ?thesis by simp
qed

lemma complex_part_reads:
  assumes "complex_part v" "reads_as h s m v"
  shows "read_map m (initial_guess h s @ later) = Inr (PNum (part_value h v))"
  using assms by (cases v) (simp_all add: reads_as_def)

lemma read_complex:
  assumes "list_all2 (\<lambda>m (k, v). reads_as h s m v) Ms [(''real'', re), (''imag'', im)]"
    and "complex_part re" "complex_part im"
  shows "read_map (PList [PFunc Fmake_complex, PList Ms]) (initial_guess h s @ later)
         = Inr (guess_config h (PComplexPrior re im))"
proof -
  from assms(1) obtain mr mi where Ms: "Ms = [mr, mi]"
    and r: "reads_as h s mr re" "reads_as h s mi im"
    by (auto simp: list_all2_Cons2)
  have "read_map mr (initial_guess h s @ later) = Inr (PNum (part_value h re))"
    "read_map mi (initial_guess h s @ later) = Inr (PNum (part_value h im))"
    using assms(2,3) r by (simp_all add: complex_part_reads)
  then show ?thesis
    unfolding Ms by (simp add: read_call make_complex_def del: read_map.simps)
qed

lemma complex_part_supported: "complex_part v \<Longrightarrow> supported v"
  by (cases v) simp_all

lemma read_slot:
  assumes "first_index (u_parameters s) r = Some index"
  shows "read_map (PStr (parameter_str (int index))) (initial_guess h s @ later)
         = Inr (PNum (guess (h r)))"
proof -
  from first_index_first [OF assms] have lt: "index < length (u_parameters s)"
    and at: "u_parameters s ! index = r" by simp_all
  have "(initial_guess h s @ later) ! index = PNum (guess (h r))"
    using lt at by (simp add: initial_guess_def nth_append)
  moreover have "index < length (initial_guess h s @ later)"
    using lt by (simp add: initial_guess_def)
  ultimately show ?thesis
    by (simp add: is_parameter_str_slot py_int_drop_slot)
qed

lemma zip_reads:
  assumes IH: "\<And>x name (self :: model). x \<in> set xs \<Longrightarrow> supported x
      \<Longrightarrow> length (u_parameter_names self) = length (u_parameters self)
      \<Longrightarrow> \<exists>M self'. convert_to_map h x name self = Inr (M, self')
            \<and> grows self self' \<and> reads_as h self' M x"
    and sup: "list_all supported xs"
    and len: "length (u_parameter_names self) = length (u_parameters self)"
  shows "\<exists>Ms self'. iterate_mapping h prefix (zip ks xs) self = Inr (Ms, self')
            \<and> grows self self' \<and> list_all2 (\<lambda>m (k, v). reads_as h self' m v) Ms (zip ks xs)"
proof (rule iterate_reads [OF _ supported_zip [OF sup] len])
  fix k v name and self :: model
  assume "(k, v) \<in> set (zip ks xs)" "supported v"
    "length (u_parameter_names self) = length (u_parameters self)"
  then show "\<exists>M self'. convert_to_map h v name self = Inr (M, self')
            \<and> grows self self' \<and> reads_as h self' M v"
    using IH [of v self name] by (auto dest: set_zip_rightD)
qed

lemma sequence_reads:
  assumes IH: "\<And>x name (self :: model). x \<in> set xs \<Longrightarrow> supported x
      \<Longrightarrow> length (u_parameter_names self) = length (u_parameters self)
      \<Longrightarrow> \<exists>M self'. convert_to_map h x name self = Inr (M, self')
            \<and> grows self self' \<and> reads_as h self' M x"
    and sup: "list_all supported xs"
    and len: "length (u_parameter_names self) = length (u_parameters self)"
  shows "\<exists>Ms self'. iterate_mapping h prefix (enumerate_str xs) self = Inr (Ms, self')
            \<and> grows self self'
            \<and> (\<forall>later. read_map (PList Ms) (initial_guess h self' @ later)
                          = Inr (PList (map (guess_config h) xs)))"
proof -
  from zip_reads [where ks = "map str_nat [0..<length xs]" and prefix = prefix, OF IH sup len]
  obtain Ms s' where i: "iterate_mapping h prefix (enumerate_str xs) self = Inr (Ms, s')"
    and g: "grows self s'"
    and r: "list_all2 (\<lambda>m (k, v). reads_as h s' m v) Ms (enumerate_str xs)"
    unfolding enumerate_str_def by blast
  have "read_map (PList Ms) (initial_guess h s' @ later) = Inr (PList (map (guess_config h) xs))"
    for later
    using read_list_of_maps [OF r, of later] by (simp add: map_snd_enumerate)
  with i g show ?thesis by blast
qed

lemma build_reads:
  "supported C \<Longrightarrow> length (u_parameter_names self) = length (u_parameters self)
   \<Longrightarrow> \<exists>M self'. convert_to_map h C name self = Inr (M, self')
         \<and> grows self self' \<and> reads_as h self' M C"
proof (induction C arbitrary: name self)
  case PNone
  then show ?case by (simp add: grows_refl reads_as_def)
next
  case (PNum x)
  then show ?case by (simp add: grows_refl reads_as_def)
next
  case (PComplex x y)
  then show ?case by (simp add: grows_refl reads_as_def)
next
  case (PStr s)
  then show ?case by (simp add: grows_refl reads_as_def)
next
  case (PFunc f)
  then show ?case by simp
next
  case (PList xs)
  from PList.prems(1) have sup: "list_all supported xs" by simp
  from sequence_reads [where prefix = "name @ ''.''", OF PList.IH sup PList.prems(2)]
  obtain Ms s' where "iterate_mapping h (name @ ''.'') (enumerate_str xs) self = Inr (Ms, s')"
    "grows self s'"
    "\<forall>later. read_map (PList Ms) (initial_guess h s' @ later)
              = Inr (PList (map (guess_config h) xs))"
    by blast
  then show ?case by (simp add: reads_as_def del: read_map.simps)
next
  case (PTuple xs)
  from PTuple.prems(1) have sup: "list_all supported xs" by simp
  from sequence_reads [where prefix = "name @ ''.''", OF PTuple.IH sup PTuple.prems(2)]
  obtain Ms s' where "iterate_mapping h (name @ ''.'') (enumerate_str xs) self = Inr (Ms, s')"
    "grows self s'"
    "\<forall>later. read_map (PList Ms) (initial_guess h s' @ later)
              = Inr (PList (map (guess_config h) xs))"
    by blast
  then show ?case by (simp add: reads_as_def del: read_map.simps)
next
  case (PArray xs)
  from PArray.prems(1) have sup: "list_all supported xs" by simp
  from sequence_reads [where prefix = "name @ ''.''", OF PArray.IH sup PArray.prems(2)]
  obtain Ms s' where "iterate_mapping h (name @ ''.'') (enumerate_str xs) self = Inr (Ms, s')"
    "grows self s'"
    "\<forall>later. read_map (PList Ms) (initial_guess h s' @ later)
              = Inr (PList (map (guess_config h) xs))"
    by blast
  then show ?case by (simp add: reads_as_def del: read_map.simps)
next
  case (PDict kvs)
  let ?prefix = "if length name > 0 then name @ ''.'' else []"
  from PDict.prems(1) have d: "distinct (map fst kvs)"
    and keys: "list_all (\<lambda>(k, v). \<not> is_parameter_str k) kvs"
    and sup: "list_all (\<lambda>(k, v). supported v) kvs"
    by (auto simp: list_all_iff)
  have "\<exists>Ms self'. iterate_mapping h ?prefix kvs self = Inr (Ms, self')
            \<and> grows self self' \<and> list_all2 (\<lambda>m (k, v). reads_as h self' m v) Ms kvs"
  proof (rule iterate_reads [OF _ sup PDict.prems(2)])
    fix k v name' and self' :: model
    assume "(k, v) \<in> set kvs" "supported v"
      "length (u_parameter_names self') = length (u_parameters self')"
    then show "\<exists>M self''. convert_to_map h v name' self' = Inr (M, self'')
            \<and> grows self' self'' \<and> reads_as h self'' M v"
      using PDict.IH [of "(k, v)" v self' name'] by simp
  qed
  then obtain Ms s' where i: "iterate_mapping h ?prefix kvs self = Inr (Ms, s')"
    and g: "grows self s'" and r: "list_all2 (\<lambda>m (k, v). reads_as h s' m v) Ms kvs"
    by blast
  have "read_map (PList [PFunc Fdict, PList [PList (dict_args (map fst kvs) Ms)]])
                  (initial_guess h s' @ later) = Inr (guess_config h (PDict kvs))" for later
    using r keys d by (rule read_dict)
  then show ?case using i g by (simp add: reads_as_def Let_def del: read_map.simps guess_config.simps)
next
  case (PXarray dn ks vs)
  from PXarray.prems(1) have dim: "\<not> is_parameter_str dn"
    and labels: "list_all (\<lambda>k. \<not> is_parameter_str k) ks"
    and ne: "vs \<noteq> []" and l: "length ks = length vs" and sup: "list_all supported vs"
    by simp_all
  from zip_reads [where ks = ks and prefix = "name @ ''.''", OF PXarray.IH sup PXarray.prems(2)]
  obtain Ms s' where i: "iterate_mapping h (name @ ''.'') (zip ks vs) self = Inr (Ms, s')"
    and g: "grows self s'"
    and r: "list_all2 (\<lambda>m (k, v). reads_as h s' m v) Ms (zip ks vs)"
    by blast
  have "read_map (PList [PFunc Fmake_xarray, PList [PStr dn, PList (map PStr ks), PList Ms]])
                  (initial_guess h s' @ later) = Inr (guess_config h (PXarray dn ks vs))" for later
    using r dim labels ne l by (rule read_xarray)
  then show ?case using i g by (simp add: reads_as_def del: read_map.simps guess_config.simps)
next
  case (PComplexPrior re im)
  from PComplexPrior.prems(1) have parts: "complex_part re" "complex_part im" by simp_all
  have sup: "list_all (\<lambda>(k, v). supported v) [(''real'', re), (''imag'', im)]"
    using parts by (simp add: complex_part_supported)
  have "\<exists>Ms self'. iterate_mapping h (name @ ''.'') [(''real'', re), (''imag'', im)] self = Inr (Ms, self')
            \<and> grows self self'
            \<and> list_all2 (\<lambda>m (k, v). reads_as h self' m v) Ms [(''real'', re), (''imag'', im)]"
  proof (rule iterate_reads [OF _ sup PComplexPrior.prems(2)])
    fix k v name' and self' :: model
    assume "(k, v) \<in> set [(''real'', re), (''imag'', im)]" "supported v"
      "length (u_parameter_names self') = length (u_parameters self')"
    then show "\<exists>M self''. convert_to_map h v name' self' = Inr (M, self'')
            \<and> grows self' self'' \<and> reads_as h self'' M v"
      using PComplexPrior.IH(1) [of self' name'] PComplexPrior.IH(2) [of self' name'] by auto
  qed
  then obtain Ms s' where
    i: "iterate_mapping h (name @ ''.'') [(''real'', re), (''imag'', im)] self = Inr (Ms, s')"
    and g: "grows self s'"
    and r: "list_all2 (\<lambda>m (k, v). reads_as h s' m v) Ms [(''real'', re), (''imag'', im)]"
    by blast
  have "read_map (PList [PFunc Fmake_complex, PList Ms]) (initial_guess h s' @ later)
        = Inr (guess_config h (PComplexPrior re im))" for later
    using r parts by (rule read_complex)
  then show ?case using i g
    by (simp add: reads_as_def del: read_map.simps guess_config.simps iterate_mapping.simps)
next
  case (PPrior r)
  from check_for_ties_result [OF PPrior.prems(2), of h r name]
  obtain index s' where c: "check_for_ties h r name self = Inr (index, s')"
    and l: "length (u_parameter_names s') = length (u_parameters s')"
    and f: "first_index (u_parameters s') r = Some index"
    and p: "u_parameters s' = u_parameters self \<or> u_parameters s' = u_parameters self @ [r]"
    by blast
  have g: "grows self s'" using l p by (auto simp: grows_def)
  have "read_map (PStr (parameter_str (int index))) (initial_guess h s' @ later)
        = Inr (PNum (guess (h r)))" for later
    using f by (rule read_slot)
  then show ?case using c g by (simp add: reads_as_def del: read_map.simps)
qed

text \<open>
  C1, as the code has it: for every supported configuration \<open>C\<close> and every registry
  whose two lists have the same length, the builder returns a map, and reading that map
  from the guesses of the registered Variables, in slot order, succeeds and gives \<open>C\<close>
  with each free Variable replaced by its guess, each tuple or array turned into a
  list, each dictionary entry with the value \<^verbatim>\<open>None\<close> dropped, and each complex pair
  turned into the complex number of its parts.
\<close>

theorem round_trip_from_guesses:
  assumes "supported C"
    and "length (u_parameter_names self) = length (u_parameters self)"
  shows "\<exists>M self'. convert_to_map h C name self = Inr (M, self')
           \<and> read_map M (initial_guess h self') = Inr (guess_config h C)"
proof -
  from build_reads [OF assms, of h name] obtain M s' where
    c: "convert_to_map h C name self = Inr (M, s')" and r: "reads_as h s' M C" by blast
  from r have "read_map M (initial_guess h s' @ []) = Inr (guess_config h C)"
    unfolding reads_as_def by blast
  with c show ?thesis by simp
qed

theorem round_trip_from_guesses_witness:
  "supported sphere
   \<and> length (u_parameter_names empty_model) = length (u_parameters empty_model)
   \<and> (\<exists>M self'. convert_to_map same_priors sphere [] empty_model = Inr (M, self')
         \<and> read_map M (initial_guess same_priors self')
             = Inr (PDict
                 [(''r'', PList [PNum (1 / 2), PNum 1]),
                  (''n'', PComplex (1 / 2) (1 / 10)),
                  (''center'', PList [PNum (1 / 2), PNone, PNum (1 / 2)]),
                  (''wl'', PXarray ''illumination'' [''red'', ''green'']
                             [PNum (1 / 2), PNum 2])]))"
proof -
  have s: "supported sphere" by (simp add: sphere_def is_parameter_str_def)
  have l: "length (u_parameter_names empty_model) = length (u_parameters empty_model)"
    by (simp add: empty_model_def)
  have g: "guess_config same_priors sphere
           = PDict [(''r'', PList [PNum (1 / 2), PNum 1]),
                    (''n'', PComplex (1 / 2) (1 / 10)),
                    (''center'', PList [PNum (1 / 2), PNone, PNum (1 / 2)]),
                    (''wl'', PXarray ''illumination'' [''red'', ''green'']
                               [PNum (1 / 2), PNum 2])]"
    by (simp add: sphere_def same_priors_def)
  show ?thesis
    using round_trip_from_guesses [OF s l, of same_priors "[]"] s l unfolding g by blast
qed

theorem round_trip_from_guesses_counterexample:
  "convert_to_map same_priors (PTuple [PNum 1, PNum 2]) [] empty_model
     = Inr (PList [PNum 1, PNum 2], empty_model)
   \<and> read_map (PList [PNum 1, PNum 2]) (initial_guess same_priors empty_model)
     = Inr (PList [PNum 1, PNum 2])
   \<and> PList [PNum 1, PNum 2] \<noteq> PTuple [PNum 1, PNum 2]"
  by (simp add: enumerate_str_def stored_call_def)

section \<open>Names stay distinct on the other paths\<close>

text \<open>
  Registration, map building and a tie without a new name keep the names pairwise
  distinct; only the new name of a tie is stored unchecked.
\<close>

lemma unique_name_not_used: "unique_name names name = Inr name3 \<Longrightarrow> name3 \<notin> set names"
proof (induction names name rule: unique_name.induct)
  case (1 names name)
  show ?case
  proof (cases "name \<in> set names")
    case False
    with "1.prems" show ?thesis by (simp add: unique_name.simps)
  next
    case True
    with "1.prems" obtain name' where b: "bump_name name = Inr name'"
      and u: "unique_name names name' = Inr name3"
      by (subst (asm) unique_name.simps) (auto split: sum.splits)
    from "1.IH" [OF True b u] show ?thesis .
  qed
qed

lemma check_for_ties_distinct:
  assumes "distinct (u_parameter_names self)"
    and "check_for_ties h parameter name self = Inr (index, self')"
  shows "distinct (u_parameter_names self')"
proof (cases "first_index (u_parameters self) parameter")
  case None
  with assms(2) obtain name3 where
    u: "unique_name (u_parameter_names self)
          (if (case pname (h parameter) of Some n \<Rightarrow> n | None \<Rightarrow> name) \<in> set (u_parameter_names self)
           then (case pname (h parameter) of Some n \<Rightarrow> n | None \<Rightarrow> name) @ ''_0''
           else (case pname (h parameter) of Some n \<Rightarrow> n | None \<Rightarrow> name)) = Inr name3"
    and s: "u_parameter_names self' = u_parameter_names self @ [name3]"
    by (auto simp: check_for_ties_def Let_def split: sum.splits)
  from unique_name_not_used [OF u] assms(1) show ?thesis by (simp add: s)
next
  case (Some i)
  with assms(2) have
    "u_parameter_names self' = u_parameter_names self
     \<or> (after_colon (u_parameter_names self ! i) \<notin> set (u_parameter_names self)
        \<and> u_parameter_names self'
            = (u_parameter_names self)[i := after_colon (u_parameter_names self ! i)])"
    by (auto simp: check_for_ties_def Let_def split: if_splits)
  then show ?thesis using assms(1) by (auto intro: distinct_list_update)
qed

lemma distinct_del_at: "distinct xs \<Longrightarrow> distinct (del_at index xs)"
proof -
  assume d: "distinct xs"
  have "set (take index xs) \<inter> set (drop (Suc index) xs) = {}"
    using d by (metis append_take_drop_id distinct_append set_drop_subset_set_drop
        disjoint_iff subsetD Suc_n_not_le_n nat_le_linear)
  then show ?thesis using d by (simp add: del_at_def)
qed

lemma del_slots_distinct:
  "distinct (u_parameter_names self) \<Longrightarrow> del_slots idxs self = (r, self')
     \<Longrightarrow> distinct (u_parameter_names self') \<and> u_maps self' = u_maps self"
proof (induction idxs arbitrary: self)
  case Nil
  then show ?case by simp
next
  case (Cons index rest)
  show ?case
  proof (cases "length (u_parameters self) \<le> index
               \<or> length (u_parameter_names self) \<le> index")
    case True
    with Cons.prems show ?thesis by (auto simp: Let_def split: if_splits)
  next
    case False
    let ?s = "self\<lparr>u_parameters := del_at index (u_parameters self),
                     u_parameter_names := del_at index (u_parameter_names self)\<rparr>"
    from Cons.prems False have "del_slots rest ?s = (r, self')" by (simp add: Let_def)
    moreover have "distinct (u_parameter_names ?s)"
      using Cons.prems(1) by (simp add: distinct_del_at)
    ultimately show ?thesis using Cons.IH [of ?s] by simp
  qed
qed

lemma add_tie_unnamed_distinct:
  assumes "distinct (u_parameter_names self)"
  shows "distinct (u_parameter_names (snd (add_tie h parameters_to_tie None self)))"
proof (cases "tie_indices h self (hd parameters_to_tie) parameters_to_tie []")
  case (Inl e)
  then show ?thesis using assms by (simp add: add_tie_def)
next
  case (Inr unsorted)
  obtain r self1 where d: "del_slots (rev (tl (sort unsorted))) self = (r, self1)"
    by (cases "del_slots (rev (tl (sort unsorted))) self")
  from del_slots_distinct [OF assms d] have dn: "distinct (u_parameter_names self1)" by simp
  have "u_parameter_names (snd (add_tie h parameters_to_tie None self)) = u_parameter_names self1"
    using Inr d by (auto simp: add_tie_def Let_def split: option.splits sum.splits)
  then show ?thesis using dn by simp
qed


lemma convert_to_map_distinct:
  "convert_to_map h C name self = Inr (M, self') \<Longrightarrow> distinct (u_parameter_names self)
     \<Longrightarrow> distinct (u_parameter_names self')"
  "iterate_mapping h prefix pairs self = Inr (Ms, self') \<Longrightarrow> distinct (u_parameter_names self)
     \<Longrightarrow> distinct (u_parameter_names self')"
proof (induction h C name self and h prefix pairs self arbitrary: M self' and Ms self'
       rule: convert_to_map_iterate_mapping.induct)
  case (7 h r name self)
  then show ?case by (auto split: sum.splits dest: check_for_ties_distinct)
next
  case (14 h prefix suffix parameter pairs self)
  from "14.prems"(1) obtain mapped s1 rest where
    c: "convert_to_map h parameter (prefix @ suffix) self = Inr (mapped, s1)"
    and i: "iterate_mapping h prefix pairs s1 = Inr (rest, self')"
    by (auto split: sum.splits)
  from "14.IH"(1) [OF c "14.prems"(2)] have "distinct (u_parameter_names s1)" .
  from "14.IH"(2) [OF c refl i this] show ?case .
qed (auto split: sum.splits simp: Let_def)

end
